theory Spec2Isabelle
  imports Main "HOL-Library.Word"
begin

unbundle bit_operations_syntax

section \<open>Machine integers and on-disk little-endian fields\<close>

type_synonym u8 = "8 word"
type_synonym u32 = "32 word"
type_synonym u64 = "64 word"

text \<open>
  A little-endian field is a run of bytes, least significant first.  \<open>le_word\<close> decodes
  such a run and \<open>le_bytes n\<close> encodes the low \<open>n\<close> bytes of a word.
\<close>

fun le_word :: "u8 list \<Rightarrow> 'a::len word" where
  "le_word [] = 0"
| "le_word (b # bs) = ucast b + 256 * le_word bs"

fun le_bytes :: "nat \<Rightarrow> 'a::len word \<Rightarrow> u8 list" where
  "le_bytes 0 v = []"
| "le_bytes (Suc n) v = ucast v # le_bytes n (drop_bit 8 v)"

text \<open>
  The kernel's conversion macros, applied to the bytes that start at a field's address.
  Bytes past the end of the buffer are read as absent (zero); every caller below stays
  inside the block.
\<close>

definition le32_to_cpu :: "u8 list \<Rightarrow> u32" where
  "le32_to_cpu bs = le_word (take 4 bs)"

definition le64_to_cpu :: "u8 list \<Rightarrow> u64" where
  "le64_to_cpu bs = le_word (take 8 bs)"

definition cpu_to_le64 :: "u64 \<Rightarrow> u8 list" where
  "cpu_to_le64 v = le_bytes 8 v"

text \<open>Error codes of the module, returned negated by the C functions.\<close>

datatype errno = ENOMEM | EIO | EAGAIN | ENODATA | ENOSPC | EOPNOTSUPP | EFSCORRUPTED | EFSBADCRC

section \<open>Superblock state\<close>

text \<open>One entry of a checkpoint-mapping block (\<open>struct apfs_checkpoint_mapping\<close>).\<close>

record apfs_checkpoint_mapping =
  cpm_type :: u32
  cpm_subtype :: u32
  cpm_size :: u32
  cpm_pad :: u32
  cpm_fs_oid :: u64
  cpm_oid :: u64
  cpm_paddr :: u64

text \<open>
  A checkpoint-mapping block (\<open>struct apfs_checkpoint_map_phys\<close>): the count and the
  array \<open>cpm_map\<close>, which fills the rest of the block.
\<close>

record apfs_checkpoint_map_phys =
  cpm_count :: u32
  cpm_map :: "apfs_checkpoint_mapping list"

text \<open>The fields of the container superblock (\<open>nx_raw\<close>) that the code reads.\<close>

record apfs_nx_superblock =
  nx_xp_desc_base :: u64
  nx_xp_desc_index :: u32
  nx_xp_desc_blocks :: u32
  nx_xp_desc_len :: u32
  nx_xp_data_base :: u64
  nx_xp_data_index :: u32
  nx_xp_data_blocks :: u32

text \<open>
  The in-memory superblock.  \<open>bdev\<close> is the block device as \<open>apfs_sb_bread\<close> sees it
  through the buffer cache (a block that cannot be read is absent); checkpoint-mapping
  blocks are kept decoded in \<open>cpm_dev\<close>.  \<open>max_maps\<close> is the value of
  \<open>apfs_max_maps_per_block(sb)\<close>.  The last three fields record what the collaborators
  outside this module were asked to do: blocks handed out by the allocator, extents put
  on the free queue, buffers joined to the transaction, and buffers flagged for a checksum
  update at commit.
\<close>

record super_block =
  s_blocksize :: nat
  nx_raw :: apfs_nx_superblock
  nx_xid :: u64
  nx_flags :: u32
  max_maps :: u32
  bdev :: "u64 \<Rightarrow> u8 list option"
  cpm_dev :: "u64 \<Rightarrow> apfs_checkpoint_map_phys option"
  allocated :: "u64 list"
  free_queue :: "(u64 \<times> u64) list"
  trans_bufs :: "u64 list"
  csum_bufs :: "u64 list"

section \<open>Object checksums\<close>

text \<open>
  Modelled from the spec: the object header (\<open>struct apfs_obj_phys\<close>) is
  checksum (8 bytes), object id (8), transaction id (8), type (4), subtype (4), in this
  order from the start of the block; \<open>APFS_MAX_CKSUM_SIZE\<close> is the size of the
  checksum field.
\<close>

definition APFS_MAX_CKSUM_SIZE :: nat where
  "APFS_MAX_CKSUM_SIZE = 8"

definition o_cksum :: "u8 list \<Rightarrow> u64" where
  "o_cksum obj = le64_to_cpu obj"

definition o_oid :: "u8 list \<Rightarrow> u64" where
  "o_oid obj = le64_to_cpu (drop 8 obj)"

definition o_xid :: "u8 list \<Rightarrow> u64" where
  "o_xid obj = le64_to_cpu (drop 16 obj)"

definition o_type :: "u8 list \<Rightarrow> u32" where
  "o_type obj = le32_to_cpu (drop 24 obj)"

text \<open>Storing a 64-bit field at a byte offset of the block.\<close>

definition store_le64 :: "u8 list \<Rightarrow> nat \<Rightarrow> u64 \<Rightarrow> u8 list" where
  "store_le64 obj off v = take off obj @ cpu_to_le64 v @ drop (off + 8) obj"

text \<open>
  One round of the loop of \<open>apfs_fletcher64\<close>: \<open>sum1 += le32_to_cpu(buff[i]);
  sum2 += sum1\<close>, on 64-bit accumulators.
\<close>

definition fletcher_step :: "u8 list \<Rightarrow> nat \<Rightarrow> u64 \<times> u64 \<Rightarrow> u64 \<times> u64" where
  "fletcher_step buff i = (\<lambda>(sum1, sum2).
     let sum1' = sum1 + ucast (le32_to_cpu (drop (4 * i) buff))
     in (sum1', sum2 + sum1'))"

definition fletcher_sums :: "u8 list \<Rightarrow> nat \<Rightarrow> u64 \<times> u64" where
  "fletcher_sums buff n = fold (fletcher_step buff) [0..<n] (0, 0)"

text \<open>
  \<open>do_div(c, 0xFFFFFFFF)\<close> yields the remainder, so each check word is
  \<open>0xFFFFFFFF - c mod 0xFFFFFFFF\<close>.
\<close>

definition apfs_fletcher64 :: "u8 list \<Rightarrow> nat \<Rightarrow> u64" where
  "apfs_fletcher64 addr len =
     (let (sum1, sum2) = fletcher_sums addr (len div 4);
          c1 = sum1 + sum2;
          c1 = 0xFFFFFFFF - c1 mod 0xFFFFFFFF;
          c2 = sum1 + c1;
          c2 = 0xFFFFFFFF - c2 mod 0xFFFFFFFF
      in push_bit 32 c2 OR c1)"

definition apfs_obj_verify_csum :: "super_block \<Rightarrow> u8 list \<Rightarrow> bool" where
  "apfs_obj_verify_csum sb obj \<longleftrightarrow>
     o_cksum obj =
       apfs_fletcher64 (drop APFS_MAX_CKSUM_SIZE obj) (s_blocksize sb - APFS_MAX_CKSUM_SIZE)"

definition apfs_obj_set_csum :: "super_block \<Rightarrow> u8 list \<Rightarrow> u8 list" where
  "apfs_obj_set_csum sb obj =
     (let cksum = apfs_fletcher64 (drop APFS_MAX_CKSUM_SIZE obj)
                    (s_blocksize sb - APFS_MAX_CKSUM_SIZE)
      in store_le64 obj 0 cksum)"

text \<open>
  The checksum as the specification words it: two running sums of the 32-bit words, kept
  modulo \<open>2^32 - 1\<close>, and two complements packed into 64 bits.
\<close>

definition fletcher_modulus :: nat where
  "fletcher_modulus = 2 ^ 32 - 1"

definition running_sums :: "nat list \<Rightarrow> nat \<times> nat" where
  "running_sums ws = foldl (\<lambda>(s1, s2) w.
     let s1' = (s1 + w) mod fletcher_modulus in (s1', (s2 + s1') mod fletcher_modulus))
     (0, 0) ws"

definition fletcher64_spec :: "nat list \<Rightarrow> nat" where
  "fletcher64_spec ws =
     (let (s1, s2) = running_sums ws;
          c1 = fletcher_modulus - (s1 + s2) mod fletcher_modulus;
          c2 = fletcher_modulus - (s1 + c1) mod fletcher_modulus
      in c2 * 2 ^ 32 + c1)"

text \<open>The 32-bit words of a buffer that the checksum loop visits.\<close>

definition buff_words :: "u8 list \<Rightarrow> nat \<Rightarrow> nat list" where
  "buff_words buff n = map (\<lambda>i. unat (le32_to_cpu (drop (4 * i) buff))) [0..<n]"

text \<open>
  The sums the loop computes, without the 64-bit wrap-around: \<open>plain_sum1\<close> is the sum
  of the first \<open>n\<close> words and \<open>plain_sum2\<close> the sum of its running values.
  \<open>pack_checks\<close> is the final combination of the two sums.
\<close>

definition word_at :: "u8 list \<Rightarrow> nat \<Rightarrow> nat" where
  "word_at buff i = unat (le32_to_cpu (drop (4 * i) buff))"

definition plain_sum1 :: "u8 list \<Rightarrow> nat \<Rightarrow> nat" where
  "plain_sum1 buff n = (\<Sum>i<n. word_at buff i)"

definition plain_sum2 :: "u8 list \<Rightarrow> nat \<Rightarrow> nat" where
  "plain_sum2 buff n = (\<Sum>i<n. (n - i) * word_at buff i)"

definition pack_checks :: "nat \<Rightarrow> nat \<Rightarrow> nat" where
  "pack_checks s1 s2 =
     (let c1 = fletcher_modulus - (s1 + s2) mod fletcher_modulus;
          c2 = fletcher_modulus - (s1 + c1) mod fletcher_modulus
      in c2 * 2 ^ 32 + c1)"

section \<open>Object blocks and copy-on-write\<close>

text \<open>
  What the object layer takes from outside the translated sources.  The flag masks and
  object types are constants of the module's headers; nothing below depends on their
  values.

  Modelled from the spec: the allocator and the transaction manager are collaborators
  with the contract \<open>allocate(count, prefer_backward) -> block_no\<close>,
  \<open>free_enqueue(block_no, count)\<close> and \<open>join(block)\<close>.  Each is a function of the
  current state that either fails with an error code or succeeds (the allocator with the
  block it hands out); what it was asked to do is recorded in the superblock state.
\<close>

record apfs_env =
  APFS_CHECK_NODES :: u32
  APFS_OBJ_PHYSICAL :: u32
  APFS_OBJ_EPHEMERAL :: u32
  APFS_OBJECT_TYPE_BTREE_NODE :: u32
  APFS_OBJECT_TYPE_SPACEMAN_FREE_QUEUE :: u32
  apfs_spaceman_allocate_block :: "super_block \<Rightarrow> bool \<Rightarrow> errno + u64"
  apfs_free_queue_insert :: "super_block \<Rightarrow> u64 \<Rightarrow> u64 \<Rightarrow> errno option"
  apfs_transaction_join :: "super_block \<Rightarrow> u64 \<Rightarrow> errno option"

text \<open>
  \<open>apfs_read_object_block\<close>.  The buffer head it returns is identified by its block
  number; the buffer's bytes are \<open>bdev\<close> of the returned state.  The two \<open>ASSERT\<close>s
  only warn and are left out.  The steps after a successful allocation are split off as
  \<open>cow_into\<close> (from the \<open>memcpy\<close> on).

  \<open>set_buffer_csum\<close> is a state bit of the buffer head, like the \<open>buffer_trans\<close>
  that \<open>apfs_query_join_transaction\<close> tests: setting it leaves \<open>b_data\<close> as it is
  and asks for \<open>apfs_obj_set_csum\<close> when the transaction is committed.  It is recorded
  in \<open>csum_bufs\<close>.
\<close>

definition cow_into :: "apfs_env \<Rightarrow> super_block \<Rightarrow> u64 \<Rightarrow> u8 list \<Rightarrow> u64 \<Rightarrow> u8 list
    \<Rightarrow> (errno + u64) \<times> super_block" where
  "cow_into env sb bno obj new_bno new_data =
     (let copied = take (s_blocksize sb) obj @ drop (s_blocksize sb) new_data;
          sb1 = sb\<lparr>bdev := (bdev sb)(new_bno \<mapsto> copied)\<rparr>
      in case apfs_free_queue_insert env sb1 bno 1 of
           Some err \<Rightarrow> (Inl err, sb1)
         | None \<Rightarrow>
            (let sb2 = sb1\<lparr>free_queue := free_queue sb1 @ [(bno, 1)]\<rparr>;
                 stamped = (if o_type obj AND APFS_OBJ_PHYSICAL env \<noteq> 0
                            then store_le64 copied 8 new_bno else copied);
                 stamped = store_le64 stamped 16 (nx_xid sb);
                 sb3 = sb2\<lparr>bdev := (bdev sb2)(new_bno \<mapsto> stamped)\<rparr>
             in case apfs_transaction_join env sb3 new_bno of
                  Some err \<Rightarrow> (Inl err, sb3)
                | None \<Rightarrow>
                   (Inr new_bno, sb3\<lparr>trans_bufs := trans_bufs sb3 @ [new_bno],
                                      csum_bufs := csum_bufs sb3 @ [new_bno]\<rparr>)))"

definition apfs_read_object_block :: "apfs_env \<Rightarrow> super_block \<Rightarrow> u64 \<Rightarrow> bool
    \<Rightarrow> (errno + u64) \<times> super_block" where
  "apfs_read_object_block env sb bno write =
     (case bdev sb bno of
        None \<Rightarrow> (Inl EIO, sb)
      | Some obj \<Rightarrow>
         if nx_flags sb AND APFS_CHECK_NODES env \<noteq> 0 \<and> \<not> apfs_obj_verify_csum sb obj
         then (Inl EFSBADCRC, sb)
         else if \<not> write then (Inr bno, sb)
         else if o_xid obj = nx_xid sb then (Inr bno, sb)
         else (case apfs_spaceman_allocate_block env sb True of
                 Inl err \<Rightarrow> (Inl err, sb)
               | Inr new_bno \<Rightarrow>
                  (let sb0 = sb\<lparr>allocated := allocated sb @ [new_bno]\<rparr>
                   in case bdev sb0 new_bno of
                        None \<Rightarrow> (Inl EIO, sb0)
                      | Some new_data \<Rightarrow> cow_into env sb0 bno obj new_bno new_data)))"

section \<open>Checkpoint mappings\<close>

text \<open>
  \<open>apfs_read_cpm_block\<close>: the last mapping block of the descriptor area, or \<open>NULL\<close>.
  The index arithmetic is 32-bit, the block number 64-bit.
\<close>

definition apfs_read_cpm_block :: "super_block \<Rightarrow> (u64 \<times> apfs_checkpoint_map_phys) option" where
  "apfs_read_cpm_block sb =
     (let raw_sb = nx_raw sb;
          desc_base = nx_xp_desc_base raw_sb;
          desc_index = nx_xp_desc_index raw_sb;
          desc_blks = nx_xp_desc_blocks raw_sb;
          desc_len = nx_xp_desc_len raw_sb
      in if desc_blks = 0 \<or> desc_len < 2 then None
         else (let cpm_bno = desc_base + ucast ((desc_index + desc_len - 2) mod desc_blks)
               in case cpm_dev sb cpm_bno of
                    None \<Rightarrow> None
                  | Some cpm \<Rightarrow> Some (cpm_bno, cpm)))"

text \<open>
  \<open>apfs_create_cpoint_map\<close> returns \<open>None\<close> for 0 and the error otherwise, with the
  state it leaves.  The transaction assertion only warns and is left out.
\<close>

definition apfs_create_cpoint_map :: "apfs_env \<Rightarrow> super_block \<Rightarrow> u64 \<Rightarrow> u64
    \<Rightarrow> errno option \<times> super_block" where
  "apfs_create_cpoint_map env sb oid bno =
     (case apfs_read_cpm_block sb of
        None \<Rightarrow> (Some EIO, sb)
      | Some (cpm_bno, cpm) \<Rightarrow>
         (let count = cpm_count cpm
          in if count \<ge> max_maps sb then (Some EOPNOTSUPP, sb)
             else (let entry = \<lparr>cpm_type = APFS_OBJ_EPHEMERAL env OR APFS_OBJECT_TYPE_BTREE_NODE env,
                                  cpm_subtype = APFS_OBJECT_TYPE_SPACEMAN_FREE_QUEUE env,
                                  cpm_size = of_nat (s_blocksize sb),
                                  cpm_pad = 0, cpm_fs_oid = 0,
                                  cpm_oid = oid, cpm_paddr = bno\<rparr>;
                       cpm' = cpm\<lparr>cpm_count := count + 1,
                                  cpm_map := (cpm_map cpm)[unat count := entry]\<rparr>
                   in (None, sb\<lparr>cpm_dev := (cpm_dev sb)(cpm_bno \<mapsto> cpm')\<rparr>))))"

text \<open>
  Positions in the circular checkpoint data area.  \<open>apfs_index_in_data_area\<close> computes
  in 64 bits and returns 32; \<open>apfs_data_index_to_bno\<close> adds the two indexes in 32 bits.
  With \<open>nx_xp_data_blocks = 0\<close> the C code divides by zero; the statements below are
  about a data area that has blocks.
\<close>

definition apfs_index_in_data_area :: "super_block \<Rightarrow> u64 \<Rightarrow> u32" where
  "apfs_index_in_data_area sb bno =
     (let raw_sb = nx_raw sb;
          data_base = nx_xp_data_base raw_sb;
          data_index = nx_xp_data_index raw_sb;
          data_blks = nx_xp_data_blocks raw_sb
      in ucast ((bno - data_base + ucast data_blks - ucast data_index) mod ucast data_blks))"

definition apfs_data_index_to_bno :: "super_block \<Rightarrow> u32 \<Rightarrow> u64" where
  "apfs_data_index_to_bno sb index =
     (let raw_sb = nx_raw sb;
          data_base = nx_xp_data_base raw_sb;
          data_index = nx_xp_data_index raw_sb;
          data_blks = nx_xp_data_blocks raw_sb
      in data_base + ucast ((index + data_index) mod data_blks))"

text \<open>
  The loop of \<open>apfs_remove_cpoint_map\<close> over the entries \<open>0 .. cpm_count - 1\<close>: it
  remembers the last entry whose address is \<open>bno\<close> and moves every entry that lies
  after \<open>bno\<close> in the data area one position back.
\<close>

definition remove_step :: "super_block \<Rightarrow> u64 \<Rightarrow> nat
    \<Rightarrow> apfs_checkpoint_mapping list \<times> nat option
    \<Rightarrow> apfs_checkpoint_mapping list \<times> nat option" where
  "remove_step sb bno i = (\<lambda>(maps, bno_map).
     let entry = maps ! i;
         bno_map = (if cpm_paddr entry = bno then Some i else bno_map);
         curr_off = apfs_index_in_data_area sb (cpm_paddr entry)
     in if curr_off > apfs_index_in_data_area sb bno
        then (maps[i := entry\<lparr>cpm_paddr := apfs_data_index_to_bno sb (curr_off - 1)\<rparr>], bno_map)
        else (maps, bno_map))"

text \<open>
  \<open>memmove(bno_map, bno_map + 1, (maps_end - bno_map - 1) * sizeof(*bno_map))\<close> on the
  array: the entries \<open>k + 1 .. count - 1\<close> move to \<open>k .. count - 2\<close>.
\<close>

definition memmove_maps :: "apfs_checkpoint_mapping list \<Rightarrow> nat \<Rightarrow> nat
    \<Rightarrow> apfs_checkpoint_mapping list" where
  "memmove_maps maps k count =
     take k maps @ take (count - k - 1) (drop (k + 1) maps) @ drop (count - 1) maps"

definition apfs_remove_cpoint_map :: "super_block \<Rightarrow> u64 \<Rightarrow> errno option \<times> super_block" where
  "apfs_remove_cpoint_map sb bno =
     (case apfs_read_cpm_block sb of
        None \<Rightarrow> (Some EIO, sb)
      | Some (cpm_bno, cpm) \<Rightarrow>
         (let count = cpm_count cpm
          in if count > max_maps sb then (Some EFSCORRUPTED, sb)
             else (let (maps, bno_map) =
                         fold (remove_step sb bno) [0..<unat count] (cpm_map cpm, None)
                   in case bno_map of
                        None \<Rightarrow>
                          (Some EFSCORRUPTED,
                           sb\<lparr>cpm_dev := (cpm_dev sb)(cpm_bno \<mapsto> cpm\<lparr>cpm_map := maps\<rparr>)\<rparr>)
                      | Some k \<Rightarrow>
                          (None,
                           sb\<lparr>cpm_dev := (cpm_dev sb)(cpm_bno \<mapsto>
                                 cpm\<lparr>cpm_count := count - 1,
                                     cpm_map := memmove_maps maps k (unat count)\<rparr>)\<rparr>))))"

text \<open>
  For the statements about the loop: what it does to one entry (\<open>renumber\<close>), the entry
  it remembers (\<open>last_match\<close>), and an entry's position in the data area.
\<close>

definition renumber :: "super_block \<Rightarrow> u64 \<Rightarrow> apfs_checkpoint_mapping \<Rightarrow> apfs_checkpoint_mapping" where
  "renumber sb bno e =
     (if apfs_index_in_data_area sb (cpm_paddr e) > apfs_index_in_data_area sb bno
      then e\<lparr>cpm_paddr := apfs_data_index_to_bno sb (apfs_index_in_data_area sb (cpm_paddr e) - 1)\<rparr>
      else e)"

fun last_match :: "apfs_checkpoint_mapping list \<Rightarrow> u64 \<Rightarrow> nat \<Rightarrow> nat option" where
  "last_match maps bno 0 = None"
| "last_match maps bno (Suc n) =
     (if cpm_paddr (maps ! n) = bno then Some n else last_match maps bno n)"

definition data_off :: "super_block \<Rightarrow> apfs_checkpoint_mapping \<Rightarrow> u32" where
  "data_off sb e = apfs_index_in_data_area sb (cpm_paddr e)"

section \<open>Queries on a b-tree\<close>

text \<open>
  The in-memory node (\<open>struct apfs_node\<close>): the object's id and block, the record
  count, the leaf and root flags as the inline predicates read them, and the block's
  bytes.
\<close>

record apfs_node =
  object_oid :: u64
  object_block_nr :: u64
  records :: u32
  apfs_node_is_leaf :: bool
  apfs_node_is_root :: bool
  b_data :: "u8 list"

text \<open>
  One query structure (\<open>struct apfs_query\<close>).  The \<open>parent\<close> pointer makes queries
  a singly linked chain from the current node up to the root; a chain is a list of
  these records, the current query first and its parent next, and \<open>NULL\<close> is the empty
  list.  The sought key is opaque to this file.
\<close>

record 'k apfs_query =
  q_node :: apfs_node
  q_key :: "'k option"
  q_flags :: u32
  q_index :: int
  q_key_off :: int
  q_key_len :: int
  q_off :: int
  q_len :: int
  q_depth :: int

text \<open>What a search inside one node sets in the query.\<close>

record node_pos =
  p_flags :: u32
  p_index :: int
  p_key_off :: int
  p_key_len :: int
  p_off :: int
  p_len :: int

definition set_pos :: "'k apfs_query \<Rightarrow> node_pos \<Rightarrow> 'k apfs_query" where
  "set_pos q p = q\<lparr>q_flags := p_flags p, q_index := p_index p, q_key_off := p_key_off p,
     q_key_len := p_key_len p, q_off := p_off p, q_len := p_len p\<rparr>"

text \<open>
  The node engine and the other parts of the module that the query code calls but that
  are outside the translated sources.  \<open>apfs_node_query\<close> searches one node from the
  query's position and returns its status (\<open>None\<close> for 0) and the position it leaves;
  \<open>apfs_read_node\<close> reads a child for reading; \<open>locate_record\<close> gives key offset,
  key length, value offset and value length of a record.  \<open>apfs_btree_replace\<close> and
  \<open>apfs_btree_remove\<close> are driven by the node engine (local replace, split, node
  deletion) and enter as operations on the state.
\<close>

record apfs_omap_key =
  ok_oid :: u64
  ok_xid :: u64

record apfs_omap_val =
  ov_flags :: u32
  ov_size :: u32
  ov_paddr :: u64

record 'k btree_env =
  APFS_QUERY_DONE :: u32
  APFS_QUERY_NEXT :: u32
  APFS_QUERY_OMAP :: u32
  apfs_query_storage :: "'k apfs_query \<Rightarrow> u32"
  apfs_init_omap_key :: "u64 \<Rightarrow> u64 \<Rightarrow> 'k"
  apfs_node_query :: "super_block \<Rightarrow> 'k apfs_query \<Rightarrow> errno option \<times> node_pos"
  locate_record :: "apfs_node \<Rightarrow> int \<Rightarrow> int \<times> int \<times> int \<times> int"
  apfs_read_node :: "super_block \<Rightarrow> u64 \<Rightarrow> u32 \<Rightarrow> errno + apfs_node"
  apfs_bno_from_query :: "'k apfs_query \<Rightarrow> errno + u64"
  apfs_btree_replace :: "super_block \<Rightarrow> 'k apfs_query list \<Rightarrow> apfs_omap_key \<Rightarrow> apfs_omap_val
    \<Rightarrow> errno option \<times> super_block"
  apfs_btree_remove :: "super_block \<Rightarrow> 'k apfs_query list \<Rightarrow> errno option \<times> super_block"

text \<open>
  \<open>apfs_child_from_query\<close>: the child id is the 8-byte value at \<open>query->off\<close> in the
  node's block; any other length is corruption and nothing is read.
\<close>

definition apfs_child_from_query :: "'k apfs_query \<Rightarrow> errno + u64" where
  "apfs_child_from_query query =
     (let raw = b_data (q_node query)
      in if q_len query \<noteq> 8 then Inl EFSCORRUPTED
         else Inr (le64_to_cpu (drop (nat (q_off query)) raw)))"

text \<open>
  \<open>apfs_alloc_query\<close>.  Allocation is taken to succeed (the callers in
  \<open>apfs_btree_query\<close> do not check it).  The fields that \<open>kmalloc\<close> leaves
  uninitialised are 0 here; a search sets them before anything reads them.
\<close>

definition apfs_alloc_query :: "'k btree_env \<Rightarrow> apfs_node \<Rightarrow> 'k apfs_query option \<Rightarrow> 'k apfs_query" where
  "apfs_alloc_query env node parent =
     \<lparr>q_node = node,
      q_key = (case parent of Some p \<Rightarrow> q_key p | None \<Rightarrow> None),
      q_flags = (case parent of
                   Some p \<Rightarrow> q_flags p AND NOT (APFS_QUERY_DONE env OR APFS_QUERY_NEXT env)
                 | None \<Rightarrow> 0),
      q_index = sint (records node),
      q_key_off = 0, q_key_len = 0, q_off = 0, q_len = 0,
      q_depth = (case parent of Some p \<Rightarrow> q_depth p + 1 | None \<Rightarrow> 0)\<rparr>"

text \<open>
  Modelled from the spec: \<open>apfs_node_query_first\<close> is not among the sources.  On the
  before-first path every level but the leaf is set to index 0, the first record of the
  node (so the comment on \<open>apfs_query_set_before_first\<close> too); where that record lies
  in the block is \<open>locate_record\<close>'s answer.
\<close>

definition apfs_node_query_first :: "'k btree_env \<Rightarrow> 'k apfs_query \<Rightarrow> 'k apfs_query" where
  "apfs_node_query_first env query =
     (case locate_record env (q_node query) 0 of
        (key_off, key_len, off, len) \<Rightarrow>
          query\<lparr>q_index := 0, q_key_off := key_off, q_key_len := key_len,
                 q_off := off, q_len := len\<rparr>)"

text \<open>
  The loop of \<open>apfs_query_set_before_first\<close>: it runs while the current query's depth
  is below 12 and goes one level deeper each round.  \<open>storage\<close> is computed once, on
  entry.
\<close>

function set_before_first_loop :: "'k btree_env \<Rightarrow> super_block \<Rightarrow> u32
    \<Rightarrow> 'k apfs_query \<Rightarrow> 'k apfs_query list \<Rightarrow> errno option \<times> 'k apfs_query list" where
  "set_before_first_loop env sb storage query parents =
     (if q_depth query < 12 then
        (if apfs_node_is_leaf (q_node query) then (None, query\<lparr>q_index := -1\<rparr> # parents)
         else (let query = apfs_node_query_first env query
               in case apfs_child_from_query query of
                    Inl err \<Rightarrow> (Some err, query # parents)
                  | Inr child_id \<Rightarrow>
                     (case apfs_read_node env sb child_id storage of
                        Inl err \<Rightarrow> (Some err, query # parents)
                      | Inr node \<Rightarrow>
                         set_before_first_loop env sb storage
                           (apfs_alloc_query env node (Some query)) (query # parents))))
      else (Some EFSCORRUPTED, query # parents))"
  by pat_completeness auto

termination
  by (relation "measure (\<lambda>(env, sb, storage, query, parents). nat (12 - q_depth query))")
     (auto simp: apfs_alloc_query_def apfs_node_query_first_def split: prod.splits)

definition apfs_query_set_before_first :: "'k btree_env \<Rightarrow> super_block
    \<Rightarrow> 'k apfs_query \<Rightarrow> 'k apfs_query list \<Rightarrow> errno option \<times> 'k apfs_query list" where
  "apfs_query_set_before_first env sb query parents =
     set_before_first_loop env sb (apfs_query_storage env query) query parents"

text \<open>
  \<open>apfs_btree_query\<close> from the label \<open>next_node\<close> on.  The result is the status and
  the chain \<open>*query\<close> is left at; a run that never returns has no result.
\<close>

partial_function (option) next_node :: "'k btree_env \<Rightarrow> super_block \<Rightarrow> u32
    \<Rightarrow> 'k apfs_query \<Rightarrow> 'k apfs_query list \<Rightarrow> (errno option \<times> 'k apfs_query list) option" where
  "next_node env sb storage query parents =
     (if q_depth query \<ge> 12 then Some (Some EFSCORRUPTED, query # parents)
      else (case apfs_node_query env sb query of
              (err, pos) \<Rightarrow>
               (let query = set_pos query pos
                in if err = Some ENODATA \<and> parents = [] \<and> q_index query = -1 then
                     (case apfs_query_set_before_first env sb query parents of
                        (Some err, chain) \<Rightarrow> Some (Some err, chain)
                      | (None, chain) \<Rightarrow> Some (Some ENODATA, chain))
                   else if err = Some EAGAIN then
                     (case parents of
                        [] \<Rightarrow> Some (Some ENODATA, query # parents)
                      | parent # ancestors \<Rightarrow> next_node env sb storage parent ancestors)
                   else if err \<noteq> None then Some (err, query # parents)
                   else if apfs_node_is_leaf (q_node query) then Some (None, query # parents)
                   else (case apfs_child_from_query query of
                           Inl err \<Rightarrow> Some (Some err, query # parents)
                         | Inr child_id \<Rightarrow>
                            (case apfs_read_node env sb child_id storage of
                               Inl err \<Rightarrow> Some (Some err, query # parents)
                             | Inr node \<Rightarrow>
                                next_node env sb storage
                                  (apfs_alloc_query env node (Some query)) (query # parents))))))"

definition apfs_btree_query :: "'k btree_env \<Rightarrow> super_block
    \<Rightarrow> 'k apfs_query \<Rightarrow> 'k apfs_query list \<Rightarrow> (errno option \<times> 'k apfs_query list) option" where
  "apfs_btree_query env sb query parents =
     next_node env sb (apfs_query_storage env query) query parents"

text \<open>
  The contract of the node search that termination rests on: a search that succeeds
  leaves the query at a record before the position it started from (the search starts
  at the last record and goes backwards).
\<close>

definition search_goes_backwards :: "'k btree_env \<Rightarrow> bool" where
  "search_goes_backwards env \<longleftrightarrow>
     (\<forall>sb query pos. apfs_node_query env sb query = (None, pos) \<longrightarrow>
        0 \<le> p_index pos \<and> p_index pos < q_index query)"

text \<open>
  A bound on the rounds of \<open>next_node\<close> that one query can cause: with no level left
  it is one round; otherwise one round for each search, and for each successful search
  the rounds of the child, whose position is a record count below \<open>2^31\<close>.
\<close>

fun visits :: "nat \<Rightarrow> nat \<Rightarrow> nat" where
  "visits 0 i = 1"
| "visits (Suc n) i = 1 + i * (1 + visits n (2 ^ 31))"

definition work :: "'k apfs_query list \<Rightarrow> nat" where
  "work chain = sum_list (map (\<lambda>q. visits (nat (12 - q_depth q)) (nat (q_index q))) chain)"

section \<open>The object map\<close>

text \<open>
  The query that \<open>apfs_omap_lookup_block\<close>, \<open>apfs_create_omap_rec\<close> and
  \<open>apfs_delete_omap_rec\<close> build: a fresh query on the root of the object map, for the
  key \<open>(id, nx_xid)\<close>, flagged as an object-map query.
\<close>

definition omap_query :: "'k btree_env \<Rightarrow> super_block \<Rightarrow> apfs_node \<Rightarrow> u64 \<Rightarrow> 'k apfs_query" where
  "omap_query benv sb tbl node_id =
     (let query = apfs_alloc_query benv tbl None;
          query = query\<lparr>q_key := Some (apfs_init_omap_key benv node_id (nx_xid sb))\<rparr>
      in query\<lparr>q_flags := q_flags query OR APFS_QUERY_OMAP benv\<rparr>)"

text \<open>
  \<open>apfs_omap_lookup_block\<close>: the block number on success, the error otherwise, and
  the state left.  Every failure goes to the label \<open>fail\<close>, which returns \<open>ret\<close> as
  it is.
\<close>

definition apfs_omap_lookup_block :: "'k btree_env \<Rightarrow> apfs_env \<Rightarrow> super_block \<Rightarrow> apfs_node
    \<Rightarrow> u64 \<Rightarrow> bool \<Rightarrow> ((errno + u64) \<times> super_block) option" where
  "apfs_omap_lookup_block benv env sb tbl node_id write =
     (case apfs_btree_query benv sb (omap_query benv sb tbl node_id) [] of
        None \<Rightarrow> None
      | Some (Some ret, query) \<Rightarrow> Some (Inl ret, sb)
      | Some (None, query) \<Rightarrow>
         (case apfs_bno_from_query benv (hd query) of
            Inl ret \<Rightarrow> Some (Inl ret, sb)
          | Inr block \<Rightarrow>
             if write then
               (case apfs_read_object_block env sb block write of
                  (Inl ret, sb1) \<Rightarrow> Some (Inl ret, sb1)
                | (Inr new_bno, sb1) \<Rightarrow>
                   (let key = \<lparr>ok_oid = node_id, ok_xid = nx_xid sb1\<rparr>;
                        val = \<lparr>ov_flags = 0, ov_size = of_nat (s_blocksize sb1),
                               ov_paddr = new_bno\<rparr>
                    in case apfs_btree_replace benv sb1 query key val of
                         (None, sb2) \<Rightarrow> Some (Inr new_bno, sb2)
                       | (Some ret, sb2) \<Rightarrow> Some (Inl ret, sb2)))
             else Some (Inr block, sb)))"

text \<open>
  \<open>apfs_delete_omap_rec\<close>, on the root of the volume's object map
  (\<open>sbi->s_omap_root\<close>): a query that finds nothing is turned into corruption.
\<close>

definition apfs_delete_omap_rec :: "'k btree_env \<Rightarrow> super_block \<Rightarrow> apfs_node \<Rightarrow> u64
    \<Rightarrow> (errno option \<times> super_block) option" where
  "apfs_delete_omap_rec benv sb s_omap_root oid =
     (case apfs_btree_query benv sb (omap_query benv sb s_omap_root oid) [] of
        None \<Rightarrow> None
      | Some (ret, query) \<Rightarrow>
         (let ret = (if ret = Some ENODATA then Some EFSCORRUPTED else ret)
          in if ret = None then Some (apfs_btree_remove benv sb query)
             else Some (ret, sb)))"

section \<open>Examples\<close>

text \<open>
  A container for the examples: 4096-byte blocks, transaction 2 open, node checksums
  checked, and collaborators that always succeed; the allocator hands out block 900.
\<close>

definition example_env :: apfs_env where
  "example_env = \<lparr>APFS_CHECK_NODES = 1, APFS_OBJ_PHYSICAL = 0x40000000,
     APFS_OBJ_EPHEMERAL = 0x80000000, APFS_OBJECT_TYPE_BTREE_NODE = 3,
     APFS_OBJECT_TYPE_SPACEMAN_FREE_QUEUE = 9,
     apfs_spaceman_allocate_block = (\<lambda>sb backwards. Inr 900),
     apfs_free_queue_insert = (\<lambda>sb bno count. None),
     apfs_transaction_join = (\<lambda>sb bno. None)\<rparr>"

definition example_raw :: apfs_nx_superblock where
  "example_raw = \<lparr>nx_xp_desc_base = 1, nx_xp_desc_index = 0, nx_xp_desc_blocks = 8,
     nx_xp_desc_len = 2, nx_xp_data_base = 100, nx_xp_data_index = 0,
     nx_xp_data_blocks = 52\<rparr>"

definition example_sb :: "(u64 \<Rightarrow> u8 list option)
    \<Rightarrow> (u64 \<Rightarrow> apfs_checkpoint_map_phys option) \<Rightarrow> super_block" where
  "example_sb dev cpms = \<lparr>s_blocksize = 4096, nx_raw = example_raw, nx_xid = 2, nx_flags = 1,
     max_maps = 101, bdev = dev, cpm_dev = cpms, allocated = [], free_queue = [],
     trans_bufs = [], csum_bufs = []\<rparr>"

text \<open>
  A mapping block with three free-queue nodes at the first three blocks of the data
  area, in a block with room for 101 entries.
\<close>

definition example_mapping :: "u64 \<Rightarrow> u64 \<Rightarrow> apfs_checkpoint_mapping" where
  "example_mapping oid paddr = \<lparr>cpm_type = 0x80000003, cpm_subtype = 9, cpm_size = 4096,
     cpm_pad = 0, cpm_fs_oid = 0, cpm_oid = oid, cpm_paddr = paddr\<rparr>"

definition example_cpm :: "u32 \<Rightarrow> apfs_checkpoint_map_phys" where
  "example_cpm n = \<lparr>cpm_count = n,
     cpm_map = [example_mapping 10 100, example_mapping 11 101, example_mapping 12 102]
               @ replicate 98 (example_mapping 0 0)\<rparr>"

definition example_cpm_sb :: "u32 \<Rightarrow> super_block" where
  "example_cpm_sb n = example_sb Map.empty [1 \<mapsto> example_cpm n]"

text \<open>A block of zeros with its checksum set, and a state whose block 7 is arbitrary.\<close>

definition example_block :: "u8 list" where
  "example_block = apfs_obj_set_csum (example_sb Map.empty Map.empty) (replicate 4096 0)"

text \<open>
  A toy tree and node engine for the examples.  Every record has its 8-byte key at
  offset 8 and its 8-byte value at offset 0 of the block.  \<open>search_backwards\<close> steps to
  the record before the query's position and reports \<open>EAGAIN\<close> when there is none;
  \<open>search_before_all\<close> is the search for a key below every record of the node;
  \<open>search_short_value\<close> finds a record whose value has 4 bytes.
\<close>

definition search_backwards :: "super_block \<Rightarrow> (u64 \<times> u64) apfs_query \<Rightarrow> errno option \<times> node_pos" where
  "search_backwards sb q =
     (if 0 < q_index q
      then (None, \<lparr>p_flags = q_flags q, p_index = q_index q - 1, p_key_off = 8, p_key_len = 8,
                   p_off = 0, p_len = 8\<rparr>)
      else (Some EAGAIN, \<lparr>p_flags = q_flags q, p_index = q_index q, p_key_off = q_key_off q,
                           p_key_len = q_key_len q, p_off = q_off q, p_len = q_len q\<rparr>))"

definition search_before_all :: "super_block \<Rightarrow> (u64 \<times> u64) apfs_query \<Rightarrow> errno option \<times> node_pos" where
  "search_before_all sb q =
     (Some ENODATA, \<lparr>p_flags = q_flags q, p_index = -1, p_key_off = q_key_off q,
                      p_key_len = q_key_len q, p_off = q_off q, p_len = q_len q\<rparr>)"

definition search_short_value :: "super_block \<Rightarrow> (u64 \<times> u64) apfs_query \<Rightarrow> errno option \<times> node_pos" where
  "search_short_value sb q =
     (None, \<lparr>p_flags = q_flags q, p_index = q_index q - 1, p_key_off = 8, p_key_len = 8,
              p_off = 0, p_len = 4\<rparr>)"

definition example_btree_env ::
    "(super_block \<Rightarrow> (u64 \<times> u64) apfs_query \<Rightarrow> errno option \<times> node_pos)
     \<Rightarrow> (u64 \<Rightarrow> apfs_node option) \<Rightarrow> int \<Rightarrow> (u64 \<times> u64) btree_env" where
  "example_btree_env search nodes value_len =
     \<lparr>APFS_QUERY_DONE = 0x40, APFS_QUERY_NEXT = 0x10, APFS_QUERY_OMAP = 1,
      apfs_query_storage = (\<lambda>q. 0x40000000),
      apfs_init_omap_key = Pair,
      apfs_node_query = search,
      locate_record = (\<lambda>node i. (8, 8, 0, value_len)),
      apfs_read_node = (\<lambda>sb id storage. case nodes id of Some n \<Rightarrow> Inr n | None \<Rightarrow> Inl EIO),
      apfs_bno_from_query = (\<lambda>q. if q_len q = 16
         then Inr (le64_to_cpu (drop (nat (q_off q) + 8) (b_data (q_node q))))
         else Inl EFSCORRUPTED),
      apfs_btree_replace = (\<lambda>sb chain key val. (None, sb)),
      apfs_btree_remove = (\<lambda>sb chain. (None, sb))\<rparr>"

text \<open>
  An index node at block 5 with one record, and a leaf at block 6.  \<open>index_node c\<close>
  points to child \<open>c\<close>: \<open>index_node 6\<close> is the root of a two-level tree,
  \<open>index_node 5\<close> points back to itself.
\<close>

definition index_node :: "u64 \<Rightarrow> apfs_node" where
  "index_node child = \<lparr>object_oid = 5, object_block_nr = 5, records = 1,
     apfs_node_is_leaf = False, apfs_node_is_root = True,
     b_data = cpu_to_le64 child @ replicate 4088 0\<rparr>"

definition leaf_node :: apfs_node where
  "leaf_node = \<lparr>object_oid = 6, object_block_nr = 6, records = 1,
     apfs_node_is_leaf = True, apfs_node_is_root = False, b_data = replicate 4096 0\<rparr>"

definition cycle_env :: "(u64 \<times> u64) btree_env" where
  "cycle_env = example_btree_env search_backwards [5 \<mapsto> index_node 5] 8"

definition tree_env :: "(super_block \<Rightarrow> (u64 \<times> u64) apfs_query \<Rightarrow> errno option \<times> node_pos)
    \<Rightarrow> int \<Rightarrow> (u64 \<times> u64) btree_env" where
  "tree_env search value_len =
     example_btree_env search [5 \<mapsto> index_node 6, 6 \<mapsto> leaf_node] value_len"

definition root_query :: "(u64 \<times> u64) btree_env \<Rightarrow> apfs_node \<Rightarrow> (u64 \<times> u64) apfs_query" where
  "root_query env node = (apfs_alloc_query env node None)\<lparr>q_key := Some (7, 2)\<rparr>"

definition first_child_chain :: "(u64 \<times> u64) apfs_query list" where
  "first_child_chain =
     (let env = tree_env search_before_all 8;
          rootq = apfs_node_query_first env
                    (set_pos (root_query env (index_node 6))
                       (snd (search_before_all (example_sb Map.empty Map.empty)
                          (root_query env (index_node 6)))))
      in [(apfs_alloc_query env leaf_node (Some rootq))\<lparr>q_index := -1\<rparr>, rootq])"

text \<open>
  A virtual object of transaction 1 at block 7, with a valid checksum: object id 0,
  transaction id 1, type 3 (a b-tree node, no storage-class bit), the rest zero.
\<close>

definition cow_example_block :: "u8 list" where
  "cow_example_block = apfs_obj_set_csum (example_sb Map.empty Map.empty)
     (replicate 16 0 @ [1, 0, 0, 0, 0, 0, 0, 0] @ [3, 0, 0, 0] @ replicate 4068 0)"

definition cow_example_sb :: super_block where
  "cow_example_sb = example_sb [7 \<mapsto> cow_example_block, 900 \<mapsto> replicate 4096 0] Map.empty"

section \<open>Checksum properties\<close>

subsection \<open>Byte-level facts\<close>

lemma length_le_bytes: "length (le_bytes n v) = n"
  by (induction n arbitrary: v) auto

lemma low_byte_split:
  "(ucast (ucast (v::'a::len word) :: u8) :: 'a word) + 256 * take_bit m (drop_bit 8 v)
     = take_bit (8 + m) v"
proof -
  have a: "(ucast (ucast v :: u8) :: 'a word) = take_bit 8 v"
    by (rule bit_word_eqI) (auto simp: bit_simps)
  have b: "256 * take_bit m (drop_bit 8 v) = push_bit 8 (drop_bit 8 (take_bit (8 + m) v))"
    by (simp add: push_bit_eq_mult drop_bit_take_bit)
  have c: "take_bit 8 v = take_bit 8 (take_bit (8 + m) v)"
    by simp
  show ?thesis
    unfolding a b using bits_ident[of 8 "take_bit (8 + m) v"]
    by (subst c) (simp add: add.commute)
qed

lemma le_word_le_bytes: "(le_word (le_bytes n v) :: 'a::len word) = take_bit (8 * n) v"
proof (induction n arbitrary: v)
  case 0
  show ?case by simp
next
  case (Suc n)
  show ?case using low_byte_split[of v "8 * n"] by (simp add: Suc)
qed

lemma le64_to_cpu_cpu_to_le64: "le64_to_cpu (cpu_to_le64 v @ rest) = v"
proof -
  have "take 8 (le_bytes 8 v @ rest) = le_bytes 8 v"
    by (simp add: length_le_bytes)
  moreover have "take_bit 64 v = v"
    by (simp add: take_bit_word_eq_self)
  ultimately show ?thesis
    using le_word_le_bytes[of 8 v]
    by (simp add: le64_to_cpu_def cpu_to_le64_def del: le_bytes.simps)
qed

lemma length_cpu_to_le64: "length (cpu_to_le64 v) = 8"
  by (simp add: cpu_to_le64_def length_le_bytes)

subsection \<open>The accumulators do not overflow on a block\<close>

lemma word_at_less: "word_at buff i < 2 ^ 32"
  unfolding word_at_def using unsigned_less[of "le32_to_cpu (drop (4 * i) buff)", where 'a=nat] by simp

lemma plain_sum1_Suc: "plain_sum1 buff (Suc n) = plain_sum1 buff n + word_at buff n"
  by (simp add: plain_sum1_def)

lemma plain_sum2_Suc: "plain_sum2 buff (Suc n) = plain_sum2 buff n + plain_sum1 buff (Suc n)"
proof -
  have "(\<Sum>i<n. (Suc n - i) * word_at buff i) = (\<Sum>i<n. (n - i) * word_at buff i) + (\<Sum>i<n. word_at buff i)"
    by (subst sum.distrib[symmetric], intro sum.cong) (auto simp: Suc_diff_le)
  then show ?thesis by (simp add: plain_sum2_def plain_sum1_def)
qed

lemma plain_sum1_le: "plain_sum1 buff n \<le> n * (2 ^ 32 - 1)"
proof (induction n)
  case 0 show ?case by (simp add: plain_sum1_def)
next
  case (Suc n)
  show ?case using Suc word_at_less[of buff n] by (simp add: plain_sum1_Suc)
qed

lemma plain_sum2_le: "plain_sum2 buff n \<le> n * n * (2 ^ 32 - 1)"
proof (induction n)
  case 0 show ?case by (simp add: plain_sum2_def)
next
  case (Suc n)
  have "plain_sum2 buff (Suc n) \<le> n * n * (2 ^ 32 - 1) + Suc n * (2 ^ 32 - 1)"
    using Suc plain_sum1_le[of buff "Suc n"] by (simp only: plain_sum2_Suc add_mono)
  also have "\<dots> \<le> Suc n * Suc n * (2 ^ 32 - 1)"
    by (simp add: algebra_simps)
  finally show ?case .
qed

lemma fletcher_sums_Suc: "fletcher_sums buff (Suc n) = fletcher_step buff n (fletcher_sums buff n)"
  by (simp add: fletcher_sums_def)

lemma fletcher_sums_exact:
  assumes "n \<le> 16384"
  shows "unat (fst (fletcher_sums buff n)) = plain_sum1 buff n \<and>
         unat (snd (fletcher_sums buff n)) = plain_sum2 buff n"
  using assms
proof (induction n)
  case 0
  show ?case by (simp add: fletcher_sums_def plain_sum1_def plain_sum2_def)
next
  case (Suc n)
  obtain a b where ab: "fletcher_sums buff n = (a, b)" by (cases "fletcher_sums buff n")
  from Suc ab have a: "unat a = plain_sum1 buff n" and b: "unat b = plain_sum2 buff n" by simp_all
  let ?w = "le32_to_cpu (drop (4 * n) buff)"
  have w: "unat (ucast ?w :: u64) = word_at buff n"
  proof -
    have "unat ?w < 2 ^ 64"
      using word_at_less[of buff n] by (simp add: word_at_def)
    then show ?thesis
      by (simp add: word_at_def unsigned_ucast_eq take_bit_nat_eq_self)
  qed
  have n: "Suc n \<le> 16384" using Suc.prems .
  have "plain_sum1 buff (Suc n) \<le> 16384 * (2 ^ 32 - 1)"
    using plain_sum1_le[of buff "Suc n"] n
    by (meson le_trans mult_le_mono1)
  then have s1: "plain_sum1 buff (Suc n) < 2 ^ 64" by simp
  have "plain_sum2 buff (Suc n) \<le> 16384 * 16384 * (2 ^ 32 - 1)"
    using plain_sum2_le[of buff "Suc n"] n
    by (meson le_trans mult_le_mono mult_le_mono1)
  then have s2: "plain_sum2 buff (Suc n) < 2 ^ 64" by simp
  have a': "unat (a + ucast ?w) = plain_sum1 buff (Suc n)"
    using s1 a w by (simp add: plain_sum1_Suc unat_word_ariths)
  have b': "unat (b + (a + ucast ?w)) = plain_sum2 buff (Suc n)"
    using s2 a' b by (simp add: plain_sum2_Suc unat_word_ariths)
  show ?case
    using a' b' by (simp add: fletcher_sums_Suc ab fletcher_step_def Let_def)
qed

lemma fletcher_modulus_pos: "0 < fletcher_modulus"
  by (simp add: fletcher_modulus_def)

lemma pack_checks_mod: "pack_checks (a mod fletcher_modulus) (b mod fletcher_modulus) = pack_checks a b"
  by (simp add: pack_checks_def mod_simps)

lemma buff_words_Suc: "buff_words buff (Suc n) = buff_words buff n @ [word_at buff n]"
  by (simp add: buff_words_def word_at_def)

lemma running_sums_eq:
  "running_sums (buff_words buff n) =
     (plain_sum1 buff n mod fletcher_modulus, plain_sum2 buff n mod fletcher_modulus)"
proof (induction n)
  case 0
  show ?case by (simp add: running_sums_def buff_words_def plain_sum1_def plain_sum2_def)
next
  case (Suc n)
  have "running_sums (buff_words buff (Suc n)) =
      (let s1' = (plain_sum1 buff n mod fletcher_modulus + word_at buff n) mod fletcher_modulus
       in (s1', (plain_sum2 buff n mod fletcher_modulus + s1') mod fletcher_modulus))"
    using Suc by (simp add: running_sums_def buff_words_Suc)
  also have "\<dots> = (plain_sum1 buff (Suc n) mod fletcher_modulus,
                    plain_sum2 buff (Suc n) mod fletcher_modulus)"
    by (simp add: Let_def plain_sum1_Suc plain_sum2_Suc mod_simps)
  finally show ?case .
qed

lemma fletcher64_spec_eq:
  "fletcher64_spec (buff_words buff n) = pack_checks (plain_sum1 buff n) (plain_sum2 buff n)"
  unfolding fletcher64_spec_def running_sums_eq
  using pack_checks_mod[of "plain_sum1 buff n" "plain_sum2 buff n"]
  by (simp add: pack_checks_def)

lemma unat_check_word:
  fixes c :: u64
  shows "unat (0xFFFFFFFF - c mod 0xFFFFFFFF) = fletcher_modulus - unat c mod fletcher_modulus"
proof -
  have m: "unat (0xFFFFFFFF :: u64) = fletcher_modulus"
    by (simp add: fletcher_modulus_def)
  have "unat (c mod 0xFFFFFFFF) = unat c mod fletcher_modulus"
    by (simp add: unat_mod fletcher_modulus_def)
  moreover have "unat c mod fletcher_modulus < fletcher_modulus"
    using fletcher_modulus_pos by simp
  ultimately have "c mod 0xFFFFFFFF \<le> 0xFFFFFFFF"
    by (simp add: word_le_nat_alt fletcher_modulus_def)
  then have "unat (0xFFFFFFFF - c mod 0xFFFFFFFF) = unat (0xFFFFFFFF :: u64) - unat (c mod 0xFFFFFFFF)"
    by (rule unat_sub)
  then show ?thesis
    by (simp only: m unat_mod)
qed

lemma unat_pack:
  fixes c1 c2 :: u64
  assumes "unat c1 < 2 ^ 32" "unat c2 < 2 ^ 32"
  shows "unat (push_bit 32 c2 OR c1) = unat c2 * 2 ^ 32 + unat c1"
proof -
  have c1: "take_bit 32 c1 = c1"
    using assms(1) by (simp add: take_bit_eq_mod word_unat_eq_iff unat_mod)
  have "push_bit 32 c2 AND c1 = 0"
    by (subst c1[symmetric], rule bit_word_eqI) (auto simp: bit_simps)
  then have "push_bit 32 c2 OR c1 = push_bit 32 c2 + c1"
    by (simp add: disjunctive_add_eq_or)
  moreover have "unat (push_bit 32 c2 + c1) = unat c2 * 2 ^ 32 + unat c1"
  proof -
    have "unat c2 * 2 ^ 32 + unat c1 < 2 ^ 64"
      using assms by simp
    then show ?thesis
      by (simp add: push_bit_eq_mult unat_word_ariths)
  qed
  ultimately show ?thesis by simp
qed

lemma apfs_fletcher64_exact:
  assumes "len div 4 \<le> 16384"
  shows "unat (apfs_fletcher64 addr len) =
           pack_checks (plain_sum1 addr (len div 4)) (plain_sum2 addr (len div 4))"
proof -
  let ?n = "len div 4"
  obtain sum1 sum2 where ss: "fletcher_sums addr ?n = (sum1, sum2)"
    by (cases "fletcher_sums addr ?n")
  from fletcher_sums_exact[OF assms, of addr] ss
  have s1: "unat sum1 = plain_sum1 addr ?n" and s2: "unat sum2 = plain_sum2 addr ?n"
    by simp_all
  have "plain_sum1 addr ?n \<le> 16384 * (2 ^ 32 - 1)"
    using plain_sum1_le[of addr ?n] assms by (meson le_trans mult_le_mono1)
  then have b1: "unat sum1 < 2 ^ 47" using s1 by simp
  have "plain_sum2 addr ?n \<le> 16384 * 16384 * (2 ^ 32 - 1)"
    using plain_sum2_le[of addr ?n] assms by (meson le_trans mult_le_mono mult_le_mono1)
  then have b2: "unat sum2 < 2 ^ 61" using s2 by simp
  define c1 where "c1 = 0xFFFFFFFF - (sum1 + sum2) mod 0xFFFFFFFF"
  define c2 where "c2 = 0xFFFFFFFF - (sum1 + c1) mod 0xFFFFFFFF"
  have u12: "unat (sum1 + sum2) = unat sum1 + unat sum2"
    using b1 b2 by (simp add: unat_word_ariths)
  have uc1: "unat c1 = fletcher_modulus - (unat sum1 + unat sum2) mod fletcher_modulus"
    unfolding c1_def by (simp only: unat_check_word u12)
  then have c1b: "unat c1 < 2 ^ 32"
    by (simp add: fletcher_modulus_def)
  have u1c: "unat (sum1 + c1) = unat sum1 + unat c1"
    using b1 c1b by (simp add: unat_word_ariths)
  have uc2: "unat c2 = fletcher_modulus - (unat sum1 + unat c1) mod fletcher_modulus"
    unfolding c2_def by (simp only: unat_check_word u1c)
  then have c2b: "unat c2 < 2 ^ 32"
    by (simp add: fletcher_modulus_def)
  have "apfs_fletcher64 addr len = push_bit 32 c2 OR c1"
    by (simp add: apfs_fletcher64_def ss c1_def c2_def Let_def)
  then have "unat (apfs_fletcher64 addr len) = unat c2 * 2 ^ 32 + unat c1"
    using unat_pack[OF c1b c2b] by (simp only:)
  also have "\<dots> = pack_checks (plain_sum1 addr ?n) (plain_sum2 addr ?n)"
    by (simp only: pack_checks_def Let_def uc1 uc2 s1 s2)
  finally show ?thesis .
qed

subsection \<open>A changed byte changes the first sum\<close>

lemma unat_le32: "unat (le_word [b0,b1,b2,b3] :: u32) = unat b0 + 256 * unat b1 + 65536 * unat b2 + 16777216 * unat b3"
proof -
  have "unat b0 < 256" "unat b1 < 256" "unat b2 < 256" "unat b3 < 256"
    using unsigned_less[of b0, where 'a=nat] unsigned_less[of b1, where 'a=nat]
      unsigned_less[of b2, where 'a=nat] unsigned_less[of b3, where 'a=nat] by simp_all
  then show ?thesis
    by (simp add: unat_word_ariths unsigned_ucast_eq take_bit_nat_eq_self)
qed

lemma word_at_nth:
  assumes "4 * i + 4 \<le> length buff"
  shows "word_at buff i = unat (buff ! (4 * i)) + 256 * unat (buff ! (4 * i + 1))
           + 65536 * unat (buff ! (4 * i + 2)) + 16777216 * unat (buff ! (4 * i + 3))"
proof -
  have a: "drop (4 * i) buff = buff ! (4 * i) # drop (4 * i + 1) buff"
    using Cons_nth_drop_Suc[of "4 * i" buff] assms by simp
  have b: "drop (4 * i + 1) buff = buff ! (4 * i + 1) # drop (4 * i + 2) buff"
    using Cons_nth_drop_Suc[of "4 * i + 1" buff] assms by simp
  have c: "drop (4 * i + 2) buff = buff ! (4 * i + 2) # drop (4 * i + 3) buff"
    using Cons_nth_drop_Suc[of "4 * i + 2" buff] assms by (simp add: numeral_3_eq_3)
  have d: "drop (4 * i + 3) buff = buff ! (4 * i + 3) # drop (4 * i + 4) buff"
    using Cons_nth_drop_Suc[of "4 * i + 3" buff] assms by (simp add: numeral_Bit0 numeral_Bit1)
  have "drop (4 * i) buff = buff ! (4 * i) # buff ! (4 * i + 1) # buff ! (4 * i + 2)
          # buff ! (4 * i + 3) # drop (4 * i + 4) buff"
    by (simp only: a b c d)
  then have "take 4 (drop (4 * i) buff) = [buff ! (4 * i), buff ! (4 * i + 1), buff ! (4 * i + 2), buff ! (4 * i + 3)]"
    by simp
  then show ?thesis
    by (simp only: word_at_def le32_to_cpu_def unat_le32)
qed

lemma word_at_update_other:
  assumes "4 * i + 4 \<le> length buff" "m div 4 \<noteq> i"
  shows "word_at (buff[m := b]) i = word_at buff i"
proof -
  have "m \<noteq> 4 * i" "m \<noteq> 4 * i + 1" "m \<noteq> 4 * i + 2" "m \<noteq> 4 * i + 3"
    using assms(2) by auto
  then show ?thesis
    using assms(1) by (simp add: word_at_nth)
qed

lemma word_at_update_same:
  assumes "4 * (m div 4) + 4 \<le> length buff"
  shows "int (word_at (buff[m := b]) (m div 4)) =
         int (word_at buff (m div 4)) + (int (unat b) - int (unat (buff ! m))) * 256 ^ (m mod 4)"
proof -
  let ?k = "m div 4"
  have m: "m = 4 * ?k + m mod 4" by simp
  have lt: "m mod 4 < 4" by simp
  then consider "m mod 4 = 0" | "m mod 4 = 1" | "m mod 4 = 2" | "m mod 4 = 3" by linarith
  then show ?thesis
  proof cases
    case 1
    then have "m = 4 * ?k" using m by simp
    then show ?thesis using assms 1
      by (simp add: word_at_nth) 
  next
    case 2
    then have "m = 4 * ?k + 1" using m by simp
    then show ?thesis using assms 2
      by (simp add: word_at_nth algebra_simps) 
  next
    case 3
    then have "m = 4 * ?k + 2" using m by simp
    then show ?thesis using assms 3
      by (simp add: word_at_nth algebra_simps) 
  next
    case 4
    then have "m = 4 * ?k + 3" using m by simp
    then show ?thesis using assms 4
      by (simp add: word_at_nth algebra_simps) 
  qed
qed

lemma plain_sum1_update:
  assumes len: "4 * n \<le> length buff" and m: "m < 4 * n"
  shows "int (plain_sum1 (buff[m := b]) n) =
         int (plain_sum1 buff n) + (int (unat b) - int (unat (buff ! m))) * 256 ^ (m mod 4)"
proof -
  let ?k = "m div 4"
  have k: "?k \<in> {..<n}" using m by auto
  have in_range: "\<And>i. i < n \<Longrightarrow> 4 * i + 4 \<le> length buff"
    using len by auto
  have others: "(\<Sum>i\<in>{..<n} - {?k}. word_at (buff[m := b]) i) = (\<Sum>i\<in>{..<n} - {?k}. word_at buff i)"
    by (rule sum.cong) (auto simp: word_at_update_other in_range)
  have "plain_sum1 (buff[m := b]) n =
          word_at (buff[m := b]) ?k + (\<Sum>i\<in>{..<n} - {?k}. word_at (buff[m := b]) i)"
    unfolding plain_sum1_def using k by (simp add: sum.remove)
  moreover have "plain_sum1 buff n = word_at buff ?k + (\<Sum>i\<in>{..<n} - {?k}. word_at buff i)"
    unfolding plain_sum1_def using k by (simp add: sum.remove)
  moreover have "int (word_at (buff[m := b]) ?k) =
         int (word_at buff ?k) + (int (unat b) - int (unat (buff ! m))) * 256 ^ (m mod 4)"
    using word_at_update_same[of m buff b] in_range[of ?k] k by simp
  ultimately show ?thesis
    using others by simp
qed

lemma pack_checks_inj:
  assumes "pack_checks a b = pack_checks a' b'"
  shows "a mod fletcher_modulus = a' mod fletcher_modulus"
proof -
  define c1 where "c1 = fletcher_modulus - (a + b) mod fletcher_modulus"
  define c1' where "c1' = fletcher_modulus - (a' + b') mod fletcher_modulus"
  define r where "r = (a + c1) mod fletcher_modulus"
  define r' where "r' = (a' + c1') mod fletcher_modulus"
  have c1: "c1 < 2 ^ 32" and c1': "c1' < 2 ^ 32"
    by (simp_all add: c1_def c1'_def fletcher_modulus_def)
  have eq: "(fletcher_modulus - r) * 2 ^ 32 + c1 = (fletcher_modulus - r') * 2 ^ 32 + c1'"
    using assms by (simp add: pack_checks_def Let_def c1_def c1'_def r_def r'_def)
  have "c1 = ((fletcher_modulus - r) * 2 ^ 32 + c1) mod 2 ^ 32"
    using c1 by simp
  also have "\<dots> = ((fletcher_modulus - r') * 2 ^ 32 + c1') mod 2 ^ 32"
    by (simp only: eq)
  also have "\<dots> = c1'"
    using c1' by simp
  finally have cc: "c1 = c1'" .
  then have "fletcher_modulus - r = fletcher_modulus - r'"
    using eq by simp
  moreover have "r < fletcher_modulus" "r' < fletcher_modulus"
    using fletcher_modulus_pos by (simp_all add: r_def r'_def)
  ultimately have "r = r'" by linarith
  then have "int (a + c1) mod int fletcher_modulus = int (a' + c1) mod int fletcher_modulus"
    unfolding r_def r'_def cc by (simp only: zmod_int[symmetric])
  then have "int fletcher_modulus dvd int (a + c1) - int (a' + c1)"
    by (simp only: mod_eq_dvd_iff)
  then have "int fletcher_modulus dvd int a - int a'"
    by simp
  then have "int a mod int fletcher_modulus = int a' mod int fletcher_modulus"
    by (simp only: mod_eq_dvd_iff)
  then show ?thesis
    by (simp only: zmod_int[symmetric] of_nat_eq_iff)
qed

lemma byte_delta_not_multiple:
  fixes b b' :: u8
  assumes "b \<noteq> b'" "t < 4"
  shows "\<not> int fletcher_modulus dvd (int (unat b) - int (unat b')) * 256 ^ t"
proof
  let ?d = "(int (unat b) - int (unat b')) * 256 ^ t"
  assume dv: "int fletcher_modulus dvd ?d"
  have ne: "unat b \<noteq> unat b'" using assms(1) by (simp add: word_unat_eq_iff)
  have "unat b < 256" "unat b' < 256"
    using unsigned_less[of b, where 'a=nat] unsigned_less[of b', where 'a=nat] by simp_all
  then have bd: "\<bar>int (unat b) - int (unat b')\<bar> \<le> 255" by linarith
  have "(256::int) ^ t \<le> 256 ^ 3"
    using assms(2) by (intro power_increasing) auto
  then have pw: "(256::int) ^ t \<le> 16777216" by simp
  have "\<bar>?d\<bar> = \<bar>int (unat b) - int (unat b')\<bar> * 256 ^ t"
    by (simp add: abs_mult)
  also have "\<dots> \<le> 255 * 16777216"
    using bd pw by (intro mult_mono) auto
  finally have small: "\<bar>?d\<bar> < int fletcher_modulus"
    by (simp add: fletcher_modulus_def)
  have "int (unat b) - int (unat b') \<noteq> 0" using ne by linarith
  then have "0 < \<bar>?d\<bar>" by simp
  then have "\<not> int fletcher_modulus dvd \<bar>?d\<bar>"
    using small by (rule zdvd_not_zless)
  then show False
    using dv by simp
qed

subsection \<open>Setting and verifying the checksum\<close>

lemma o_cksum_store: "o_cksum (store_le64 obj 0 v) = v"
  by (simp add: o_cksum_def store_le64_def le64_to_cpu_cpu_to_le64)

lemma drop_cksum_store:
  "APFS_MAX_CKSUM_SIZE \<le> length obj \<Longrightarrow>
   drop APFS_MAX_CKSUM_SIZE (store_le64 obj 0 v) = drop APFS_MAX_CKSUM_SIZE obj"
  by (simp add: store_le64_def APFS_MAX_CKSUM_SIZE_def length_cpu_to_le64)

lemma verify_after_set:
  assumes "APFS_MAX_CKSUM_SIZE \<le> length obj"
  shows "apfs_obj_verify_csum sb (apfs_obj_set_csum sb obj)"
  using assms
  by (simp add: apfs_obj_verify_csum_def apfs_obj_set_csum_def Let_def o_cksum_store
      drop_cksum_store)

lemma length_set_csum:
  "APFS_MAX_CKSUM_SIZE \<le> length obj \<Longrightarrow> length (apfs_obj_set_csum sb obj) = length obj"
  by (simp add: apfs_obj_set_csum_def store_le64_def APFS_MAX_CKSUM_SIZE_def
      length_cpu_to_le64)

text \<open>
  C5.  For a block of at most 64 KiB, verification succeeds right after
  \<open>apfs_obj_set_csum\<close>, and the stored checksum is the one the specification describes:
  computed over the 32-bit words after the 8-byte checksum field, as two running sums
  modulo \<open>2^32 - 1\<close> whose complements are packed into 64 bits.
\<close>

theorem apfs_obj_set_csum_verifies:
  assumes "length obj = s_blocksize sb"
    and "APFS_MAX_CKSUM_SIZE \<le> s_blocksize sb"
    and "s_blocksize sb \<le> 65536"
  shows "apfs_obj_verify_csum sb (apfs_obj_set_csum sb obj) \<and>
         unat (o_cksum (apfs_obj_set_csum sb obj)) =
           fletcher64_spec (buff_words (drop APFS_MAX_CKSUM_SIZE obj)
             ((s_blocksize sb - APFS_MAX_CKSUM_SIZE) div 4))"
proof
  show "apfs_obj_verify_csum sb (apfs_obj_set_csum sb obj)"
    using assms by (simp add: verify_after_set)
next
  have "(s_blocksize sb - APFS_MAX_CKSUM_SIZE) div 4 \<le> 16384"
    using assms(3) by simp
  then show "unat (o_cksum (apfs_obj_set_csum sb obj)) =
      fletcher64_spec (buff_words (drop APFS_MAX_CKSUM_SIZE obj)
        ((s_blocksize sb - APFS_MAX_CKSUM_SIZE) div 4))"
    by (simp add: apfs_obj_set_csum_def Let_def o_cksum_store apfs_fletcher64_exact
        fletcher64_spec_eq)
qed

theorem apfs_obj_set_csum_verifies_witness:
  "apfs_obj_verify_csum (example_sb Map.empty Map.empty)
     (apfs_obj_set_csum (example_sb Map.empty Map.empty) (replicate 4096 0)) \<and>
   unat (o_cksum (apfs_obj_set_csum (example_sb Map.empty Map.empty) (replicate 4096 0))) =
     fletcher64_spec (buff_words (drop APFS_MAX_CKSUM_SIZE (replicate 4096 0))
       ((s_blocksize (example_sb Map.empty Map.empty) - APFS_MAX_CKSUM_SIZE) div 4))"
  by (rule apfs_obj_set_csum_verifies)
     (simp_all add: example_sb_def APFS_MAX_CKSUM_SIZE_def)

subsection \<open>Detecting a changed byte\<close>

lemma csum_detects_byte_change:
  assumes len: "length obj = s_blocksize sb"
    and small: "s_blocksize sb \<le> 65536"
    and dvd: "4 dvd s_blocksize sb"
    and valid: "apfs_obj_verify_csum sb obj"
    and j: "APFS_MAX_CKSUM_SIZE \<le> j" "j < length obj"
    and b: "b \<noteq> obj ! j"
  shows "\<not> apfs_obj_verify_csum sb (obj[j := b])"
proof
  assume bad: "apfs_obj_verify_csum sb (obj[j := b])"
  let ?n = "(s_blocksize sb - 8) div 4"
  let ?buff = "drop 8 obj"
  let ?m = "j - 8"
  have j8: "8 \<le> j" using j(1) by (simp add: APFS_MAX_CKSUM_SIZE_def)
  have n: "?n \<le> 16384" using small by simp
  have "4 dvd s_blocksize sb - 8"
    using dvd by (simp add: dvd_diff_nat)
  then have n4: "4 * ?n = s_blocksize sb - 8" by simp
  then have lenb: "4 * ?n \<le> length ?buff" using len by simp
  have m: "?m < 4 * ?n" using n4 j len j8 by simp
  have upd: "drop 8 (obj[j := b]) = ?buff[?m := b]"
    using j8 by (simp add: drop_update_swap)
  have ck: "o_cksum (obj[j := b]) = o_cksum obj"
    using j8 by (simp add: o_cksum_def le64_to_cpu_def)
  have "apfs_fletcher64 (?buff[?m := b]) (s_blocksize sb - 8) =
        apfs_fletcher64 ?buff (s_blocksize sb - 8)"
    using bad valid
    by (simp add: apfs_obj_verify_csum_def APFS_MAX_CKSUM_SIZE_def upd ck)
  then have "pack_checks (plain_sum1 (?buff[?m := b]) ?n) (plain_sum2 (?buff[?m := b]) ?n) =
             pack_checks (plain_sum1 ?buff ?n) (plain_sum2 ?buff ?n)"
    using apfs_fletcher64_exact[OF n, of "?buff[?m := b]"] apfs_fletcher64_exact[OF n, of ?buff]
    by simp
  then have "plain_sum1 (?buff[?m := b]) ?n mod fletcher_modulus =
             plain_sum1 ?buff ?n mod fletcher_modulus"
    by (rule pack_checks_inj)
  then have "int (plain_sum1 (?buff[?m := b]) ?n) mod int fletcher_modulus =
             int (plain_sum1 ?buff ?n) mod int fletcher_modulus"
    by (simp only: zmod_int[symmetric])
  then have "int fletcher_modulus dvd
             int (plain_sum1 (?buff[?m := b]) ?n) - int (plain_sum1 ?buff ?n)"
    by (simp only: mod_eq_dvd_iff)
  then have "int fletcher_modulus dvd
             (int (unat b) - int (unat (?buff ! ?m))) * 256 ^ (?m mod 4)"
    by (simp add: plain_sum1_update[OF lenb m])
  moreover have "b \<noteq> ?buff ! ?m"
    using b j j8 by simp
  ultimately show False
    using byte_delta_not_multiple[of b "?buff ! ?m" "?m mod 4"] by simp
qed

text \<open>
  C6.  A block whose stored checksum is valid, with one byte outside the checksum field
  changed, fails verification, and \<open>apfs_read_object_block\<close> with node checking enabled
  rejects it with the checksum-mismatch error.
\<close>

theorem checksum_flip_rejected:
  assumes "length obj = s_blocksize sb"
    and "s_blocksize sb \<le> 65536"
    and "4 dvd s_blocksize sb"
    and "apfs_obj_verify_csum sb obj"
    and "APFS_MAX_CKSUM_SIZE \<le> j" and "j < length obj"
    and "b \<noteq> obj ! j"
    and "bdev sb bno = Some (obj[j := b])"
    and "nx_flags sb AND APFS_CHECK_NODES env \<noteq> 0"
  shows "\<not> apfs_obj_verify_csum sb (obj[j := b]) \<and>
         apfs_read_object_block env sb bno write = (Inl EFSBADCRC, sb)"
proof -
  have "\<not> apfs_obj_verify_csum sb (obj[j := b])"
    using assms(1-7) by (rule csum_detects_byte_change)
  then show ?thesis
    using assms(8,9) by (simp add: apfs_read_object_block_def)
qed

lemma example_block_facts:
  "length example_block = 4096"
  "apfs_obj_verify_csum (example_sb dev cpms) example_block"
  "example_block ! 100 = 0"
proof -
  have bs: "s_blocksize (example_sb dev cpms) = s_blocksize (example_sb Map.empty Map.empty)"
    by (simp add: example_sb_def)
  have len: "APFS_MAX_CKSUM_SIZE \<le> length (replicate 4096 (0::u8))"
    by (simp add: APFS_MAX_CKSUM_SIZE_def)
  show "length example_block = 4096"
    using len by (simp add: example_block_def length_set_csum)
  have "apfs_obj_verify_csum (example_sb Map.empty Map.empty) example_block"
    unfolding example_block_def using len by (rule verify_after_set)
  then show "apfs_obj_verify_csum (example_sb dev cpms) example_block"
    by (simp add: apfs_obj_verify_csum_def bs)
  show "example_block ! 100 = 0"
    by (simp add: example_block_def apfs_obj_set_csum_def store_le64_def nth_append
        length_cpu_to_le64)
qed

theorem checksum_flip_rejected_witness:
  "\<not> apfs_obj_verify_csum (example_sb [7 \<mapsto> example_block[100 := 1]] Map.empty)
       (example_block[100 := 1]) \<and>
   apfs_read_object_block example_env (example_sb [7 \<mapsto> example_block[100 := 1]] Map.empty) 7 True =
     (Inl EFSBADCRC, example_sb [7 \<mapsto> example_block[100 := 1]] Map.empty)"
proof (rule checksum_flip_rejected)
  let ?sb = "example_sb [7 \<mapsto> example_block[100 := 1]] Map.empty"
  show "length example_block = s_blocksize ?sb"
    by (simp add: example_block_facts example_sb_def)
  show "s_blocksize ?sb \<le> 65536" "4 dvd s_blocksize ?sb"
    by (simp_all add: example_sb_def)
  show "apfs_obj_verify_csum ?sb example_block"
    by (rule example_block_facts)
  show "APFS_MAX_CKSUM_SIZE \<le> 100" "100 < length example_block"
    by (simp_all add: APFS_MAX_CKSUM_SIZE_def example_block_facts)
  show "(1::u8) \<noteq> example_block ! 100"
    by (simp add: example_block_facts)
  show "bdev ?sb 7 = Some (example_block[100 := 1])"
    by (simp add: example_sb_def)
  show "nx_flags ?sb AND APFS_CHECK_NODES example_env \<noteq> 0"
    by (simp add: example_sb_def example_env_def)
qed

section \<open>Checkpoint mappings: creation\<close>

text \<open>
  C9.  With the mapping block readable: when it already holds \<open>max_maps\<close> entries (or
  more), \<open>apfs_create_cpoint_map\<close> returns \<open>EOPNOTSUPP\<close> and changes nothing; when
  room remains, the new entry is written at position \<open>cpm_count\<close>, the count grows by
  one and no other entry changes.
\<close>

theorem apfs_create_cpoint_map_capacity:
  assumes "apfs_read_cpm_block sb = Some (cpm_bno, cpm)"
  shows "(max_maps sb \<le> cpm_count cpm \<longrightarrow>
            apfs_create_cpoint_map env sb oid bno = (Some EOPNOTSUPP, sb)) \<and>
         (cpm_count cpm < max_maps sb \<and> unat (max_maps sb) \<le> length (cpm_map cpm) \<longrightarrow>
            (\<exists>cpm'. apfs_create_cpoint_map env sb oid bno =
                      (None, sb\<lparr>cpm_dev := (cpm_dev sb)(cpm_bno \<mapsto> cpm')\<rparr>) \<and>
                    unat (cpm_count cpm') = unat (cpm_count cpm) + 1 \<and>
                    cpm_oid (cpm_map cpm' ! unat (cpm_count cpm)) = oid \<and>
                    cpm_paddr (cpm_map cpm' ! unat (cpm_count cpm)) = bno \<and>
                    length (cpm_map cpm') = length (cpm_map cpm) \<and>
                    take (unat (cpm_count cpm)) (cpm_map cpm') =
                      take (unat (cpm_count cpm)) (cpm_map cpm) \<and>
                    drop (unat (cpm_count cpm) + 1) (cpm_map cpm') =
                      drop (unat (cpm_count cpm) + 1) (cpm_map cpm)))"
proof (intro conjI impI)
  assume "max_maps sb \<le> cpm_count cpm"
  then show "apfs_create_cpoint_map env sb oid bno = (Some EOPNOTSUPP, sb)"
    using assms by (simp add: apfs_create_cpoint_map_def)
next
  assume a: "cpm_count cpm < max_maps sb \<and> unat (max_maps sb) \<le> length (cpm_map cpm)"
  let ?n = "unat (cpm_count cpm)"
  let ?entry = "\<lparr>cpm_type = APFS_OBJ_EPHEMERAL env OR APFS_OBJECT_TYPE_BTREE_NODE env,
                  cpm_subtype = APFS_OBJECT_TYPE_SPACEMAN_FREE_QUEUE env,
                  cpm_size = of_nat (s_blocksize sb), cpm_pad = 0, cpm_fs_oid = 0,
                  cpm_oid = oid, cpm_paddr = bno\<rparr>"
  let ?cpm' = "cpm\<lparr>cpm_count := cpm_count cpm + 1, cpm_map := (cpm_map cpm)[?n := ?entry]\<rparr>"
  have lt: "?n < unat (max_maps sb)"
    using a by (simp add: word_less_nat_alt)
  then have inr: "?n < length (cpm_map cpm)"
    using a by simp
  have "?n + 1 < 2 ^ 32"
    using lt unsigned_less[of "max_maps sb", where 'a=nat] by simp
  then have cnt: "unat (cpm_count cpm + 1) = ?n + 1"
    by (simp add: unat_word_ariths)
  have res: "apfs_create_cpoint_map env sb oid bno =
          (None, sb\<lparr>cpm_dev := (cpm_dev sb)(cpm_bno \<mapsto> ?cpm')\<rparr>)"
    using assms a by (simp add: apfs_create_cpoint_map_def Let_def not_le[symmetric])
  show "\<exists>cpm'. apfs_create_cpoint_map env sb oid bno =
                      (None, sb\<lparr>cpm_dev := (cpm_dev sb)(cpm_bno \<mapsto> cpm')\<rparr>) \<and>
                    unat (cpm_count cpm') = unat (cpm_count cpm) + 1 \<and>
                    cpm_oid (cpm_map cpm' ! unat (cpm_count cpm)) = oid \<and>
                    cpm_paddr (cpm_map cpm' ! unat (cpm_count cpm)) = bno \<and>
                    length (cpm_map cpm') = length (cpm_map cpm) \<and>
                    take (unat (cpm_count cpm)) (cpm_map cpm') =
                      take (unat (cpm_count cpm)) (cpm_map cpm) \<and>
                    drop (unat (cpm_count cpm) + 1) (cpm_map cpm') =
                      drop (unat (cpm_count cpm) + 1) (cpm_map cpm)"
    using res cnt inr by (intro exI[of _ ?cpm']) simp
qed

lemma example_cpm_read: "apfs_read_cpm_block (example_cpm_sb n) = Some (1, example_cpm n)"
  by (simp add: apfs_read_cpm_block_def example_cpm_sb_def example_sb_def example_raw_def)

theorem apfs_create_cpoint_map_capacity_witness:
  "apfs_create_cpoint_map example_env (example_cpm_sb 101) 13 103 =
     (Some EOPNOTSUPP, example_cpm_sb 101) \<and>
   (\<exists>cpm'. apfs_create_cpoint_map example_env (example_cpm_sb 3) 13 103 =
             (None, (example_cpm_sb 3)\<lparr>cpm_dev := (cpm_dev (example_cpm_sb 3))(1 \<mapsto> cpm')\<rparr>) \<and>
           unat (cpm_count cpm') = 4 \<and>
           cpm_oid (cpm_map cpm' ! 3) = 13 \<and>
           cpm_paddr (cpm_map cpm' ! 3) = 103 \<and>
           length (cpm_map cpm') = 101 \<and>
           take 3 (cpm_map cpm') = take 3 (cpm_map (example_cpm 3)) \<and>
           drop 4 (cpm_map cpm') = drop 4 (cpm_map (example_cpm 3)))"
proof
  have "max_maps (example_cpm_sb 101) \<le> cpm_count (example_cpm 101)"
    by (simp add: example_cpm_sb_def example_sb_def example_cpm_def)
  then show "apfs_create_cpoint_map example_env (example_cpm_sb 101) 13 103 =
     (Some EOPNOTSUPP, example_cpm_sb 101)"
    using apfs_create_cpoint_map_capacity[OF example_cpm_read, of 101 example_env 13 103]
    by simp
next
  have "cpm_count (example_cpm 3) < max_maps (example_cpm_sb 3) \<and>
        unat (max_maps (example_cpm_sb 3)) \<le> length (cpm_map (example_cpm 3))"
    by (simp add: example_cpm_sb_def example_sb_def example_cpm_def)
  moreover have "unat (cpm_count (example_cpm 3)) = 3"
    by (simp add: example_cpm_def)
  moreover have "length (cpm_map (example_cpm 3)) = 101"
    by (simp add: example_cpm_def)
  ultimately show "\<exists>cpm'. apfs_create_cpoint_map example_env (example_cpm_sb 3) 13 103 =
             (None, (example_cpm_sb 3)\<lparr>cpm_dev := (cpm_dev (example_cpm_sb 3))(1 \<mapsto> cpm')\<rparr>) \<and>
           unat (cpm_count cpm') = 4 \<and>
           cpm_oid (cpm_map cpm' ! 3) = 13 \<and>
           cpm_paddr (cpm_map cpm' ! 3) = 103 \<and>
           length (cpm_map cpm') = 101 \<and>
           take 3 (cpm_map cpm') = take 3 (cpm_map (example_cpm 3)) \<and>
           drop 4 (cpm_map cpm') = drop 4 (cpm_map (example_cpm 3))"
    using apfs_create_cpoint_map_capacity[OF example_cpm_read, of 3 example_env 13 103]
    by simp
qed

section \<open>Checkpoint mappings: removal\<close>

lemma circular_nat:
  fixes I D B :: nat
  assumes "I < B" "D < B"
  shows "((I + D) mod B + B - D) mod B = I"
proof -
  have le: "D \<le> (I + D) mod B + B" using assms by simp
  have "int (((I + D) mod B + B - D) mod B) = (int ((I + D) mod B) + int B - int D) mod int B"
    using le by (simp add: zmod_int of_nat_diff)
  also have "\<dots> = ((int I + int D) mod int B - int D) mod int B"
    by (simp add: zmod_int algebra_simps)
       (metis add.commute diff_add_eq mod_add_self2)
  also have "\<dots> = (int I + int D - int D) mod int B"
    by (simp only: mod_diff_left_eq)
  also have "\<dots> = int I"
    using assms by simp
  finally show ?thesis by simp
qed

lemma index_of_data_index:
  assumes di: "nx_xp_data_index (nx_raw sb) < nx_xp_data_blocks (nx_raw sb)"
    and idx: "idx < nx_xp_data_blocks (nx_raw sb)"
    and nowrap: "unat idx + unat (nx_xp_data_index (nx_raw sb)) < 2 ^ 32"
  shows "apfs_index_in_data_area sb (apfs_data_index_to_bno sb idx) = idx"
proof -
  let ?di = "nx_xp_data_index (nx_raw sb)"
  let ?blks = "nx_xp_data_blocks (nx_raw sb)"
  let ?base = "nx_xp_data_base (nx_raw sb)"
  define x where "x = (idx + ?di) mod ?blks"
  have B: "unat ?blks < 2 ^ 32" using unsigned_less[of ?blks, where 'a=nat] by simp
  have I: "unat idx < unat ?blks" using idx by (simp add: word_less_nat_alt)
  have D: "unat ?di < unat ?blks" using di by (simp add: word_less_nat_alt)
  have ux: "unat x = (unat idx + unat ?di) mod unat ?blks"
    using nowrap by (simp add: x_def unat_mod unat_word_ariths)
  have xlt: "unat x < unat ?blks" using I by (simp add: ux)
  have u64: "\<And>w::u32. unat (ucast w :: u64) = unat w"
  proof -
    fix w :: u32
    have "unat w < 2 ^ 64" using unsigned_less[of w, where 'a=nat] by simp
    then show "unat (ucast w :: u64) = unat w"
      by (simp add: unsigned_ucast_eq take_bit_nat_eq_self)
  qed
  have s1: "unat (ucast x + ucast ?blks :: u64) = unat x + unat ?blks"
    using xlt B by (simp add: unat_word_ariths u64)
  have "(ucast ?di :: u64) \<le> ucast x + ucast ?blks"
    using D by (simp add: word_le_nat_alt s1 u64)
  then have s2: "unat (ucast x + ucast ?blks - ucast ?di :: u64) = unat x + unat ?blks - unat ?di"
    by (simp add: unat_sub s1 u64)
  have "unat ((ucast x + ucast ?blks - ucast ?di :: u64) mod ucast ?blks) =
        (unat x + unat ?blks - unat ?di) mod unat ?blks"
    by (simp only: unat_mod s2 u64)
  also have "\<dots> = unat idx"
    unfolding ux using I D by (rule circular_nat)
  finally have r: "unat ((ucast x + ucast ?blks - ucast ?di :: u64) mod ucast ?blks) = unat idx" .
  have "apfs_index_in_data_area sb (apfs_data_index_to_bno sb idx) =
        ucast ((ucast x + ucast ?blks - ucast ?di :: u64) mod ucast ?blks)"
    by (simp add: apfs_index_in_data_area_def apfs_data_index_to_bno_def Let_def x_def)
  also have "\<dots> = idx"
  proof -
    have "unat (ucast ((ucast x + ucast ?blks - ucast ?di :: u64) mod ucast ?blks) :: u32) = unat idx"
      using r I B by (simp add: unsigned_ucast_eq take_bit_nat_eq_self)
    then show ?thesis by (simp add: word_unat_eq_iff)
  qed
  finally show ?thesis .
qed

lemma fold_remove_step:
  assumes "n \<le> length maps"
  shows "fold (remove_step sb bno) [0..<n] (maps, None) =
           (map (renumber sb bno) (take n maps) @ drop n maps, last_match maps bno n)"
  using assms
proof (induction n)
  case 0
  show ?case by simp
next
  case (Suc n)
  let ?done = "map (renumber sb bno) (take n maps)"
  have n: "n < length maps" using Suc.prems by simp
  have nth: "(?done @ drop n maps) ! n = maps ! n"
    using n by (simp add: nth_append)
  have upd: "\<And>e. (?done @ drop n maps)[n := e] = ?done @ e # drop (Suc n) maps"
    using n by (simp add: list_update_append upd_conv_take_nth_drop min_def)
  have same: "drop n maps = maps ! n # drop (Suc n) maps"
    using n by (simp add: Cons_nth_drop_Suc)
  have step: "remove_step sb bno n (?done @ drop n maps, bm) =
      (?done @ renumber sb bno (maps ! n) # drop (Suc n) maps,
       if cpm_paddr (maps ! n) = bno then Some n else bm)" for bm
  proof (cases "apfs_index_in_data_area sb (cpm_paddr (maps ! n)) > apfs_index_in_data_area sb bno")
    case True
    then show ?thesis
      by (simp add: remove_step_def Let_def nth upd renumber_def)
  next
    case False
    then have "remove_step sb bno n (?done @ drop n maps, bm) =
        (?done @ drop n maps, if cpm_paddr (maps ! n) = bno then Some n else bm)"
      by (simp add: remove_step_def Let_def nth)
    moreover have "renumber sb bno (maps ! n) = maps ! n"
      using False by (simp add: renumber_def)
    ultimately show ?thesis
      by (simp add: same[symmetric])
  qed
  have tk: "take (Suc n) maps = take n maps @ [maps ! n]"
    using n by (simp add: take_Suc_conv_app_nth)
  have "fold (remove_step sb bno) [0..<Suc n] (maps, None) =
        remove_step sb bno n (?done @ drop n maps, last_match maps bno n)"
    using Suc by simp
  also have "\<dots> = (map (renumber sb bno) (take (Suc n) maps) @ drop (Suc n) maps,
                    last_match maps bno (Suc n))"
    by (simp add: step tk)
  finally show ?case .
qed

lemma last_match_None: "last_match maps bno n = None \<longleftrightarrow> (\<forall>i<n. cpm_paddr (maps ! i) \<noteq> bno)"
  by (induction n) (auto simp: less_Suc_eq)

lemma last_match_unique:
  assumes "k < n" "cpm_paddr (maps ! k) = bno" "\<forall>i<n. i \<noteq> k \<longrightarrow> cpm_paddr (maps ! i) \<noteq> bno"
  shows "last_match maps bno n = Some k"
  using assms
proof (induction n)
  case 0
  then show ?case by simp
next
  case (Suc n)
  show ?case
  proof (cases "k = n")
    case True
    then show ?thesis using Suc.prems by simp
  next
    case False
    then have "k < n" using Suc.prems by simp
    moreover have "cpm_paddr (maps ! n) \<noteq> bno" using Suc.prems False by simp
    ultimately show ?thesis using Suc by simp
  qed
qed

lemma index_in_data_area_less:
  assumes "nx_xp_data_blocks (nx_raw sb) \<noteq> 0"
  shows "apfs_index_in_data_area sb p < nx_xp_data_blocks (nx_raw sb)"
proof -
  let ?blks = "nx_xp_data_blocks (nx_raw sb)"
  let ?v = "p - nx_xp_data_base (nx_raw sb) + ucast ?blks - ucast (nx_xp_data_index (nx_raw sb))"
  have B: "unat ?blks < 2 ^ 32" using unsigned_less[of ?blks, where 'a=nat] by simp
  then have u: "unat (ucast ?blks :: u64) = unat ?blks"
    by (simp add: unsigned_ucast_eq take_bit_nat_eq_self)
  have pos: "0 < unat ?blks" using assms by (simp add: unat_gt_0)
  have "unat (?v mod ucast ?blks) = unat ?v mod unat ?blks"
    by (simp only: unat_mod u)
  moreover have "unat ?v mod unat ?blks < unat ?blks"
    using pos by simp
  ultimately have lt: "unat (?v mod ucast ?blks) < unat ?blks" by simp
  then have "unat (ucast (?v mod ucast ?blks) :: u32) = unat (?v mod ucast ?blks)"
    using B by (simp add: unsigned_ucast_eq take_bit_nat_eq_self)
  then show ?thesis
    using lt by (simp add: apfs_index_in_data_area_def Let_def word_less_nat_alt)
qed

lemma remove_no_match:
  assumes rd: "apfs_read_cpm_block sb = Some (cpm_bno, cpm)"
    and fits: "cpm_count cpm \<le> max_maps sb" "unat (cpm_count cpm) \<le> length (cpm_map cpm)"
    and nomatch: "\<forall>i<unat (cpm_count cpm). cpm_paddr (cpm_map cpm ! i) \<noteq> bno"
  shows "\<exists>cpm'. apfs_remove_cpoint_map sb bno =
            (Some EFSCORRUPTED, sb\<lparr>cpm_dev := (cpm_dev sb)(cpm_bno \<mapsto> cpm')\<rparr>) \<and>
          cpm_count cpm' = cpm_count cpm"
proof -
  have "last_match (cpm_map cpm) bno (unat (cpm_count cpm)) = None"
    using nomatch by (simp add: last_match_None)
  then have "apfs_remove_cpoint_map sb bno =
      (Some EFSCORRUPTED, sb\<lparr>cpm_dev := (cpm_dev sb)(cpm_bno \<mapsto>
         cpm\<lparr>cpm_map := map (renumber sb bno) (take (unat (cpm_count cpm)) (cpm_map cpm)) @
                            drop (unat (cpm_count cpm)) (cpm_map cpm)\<rparr>)\<rparr>)"
    using rd fits by (simp add: apfs_remove_cpoint_map_def Let_def fold_remove_step not_less[symmetric])
  then show ?thesis
    by (intro exI[of _ "cpm\<lparr>cpm_map := map (renumber sb bno) (take (unat (cpm_count cpm)) (cpm_map cpm)) @
                            drop (unat (cpm_count cpm)) (cpm_map cpm)\<rparr>"]) simp
qed

lemma remove_three:
  assumes rd: "apfs_read_cpm_block sb = Some (cpm_bno, cpm)"
    and fits: "cpm_count cpm \<le> max_maps sb" "unat (cpm_count cpm) \<le> length (cpm_map cpm)"
    and area: "nx_xp_data_index (nx_raw sb) < nx_xp_data_blocks (nx_raw sb)"
    and three: "cpm_count cpm = 3" "k < 3"
    and offs: "set (map (data_off sb) (take 3 (cpm_map cpm))) = {0, 1, 2}"
    and tgt: "data_off sb (cpm_map cpm ! k) = 1"
  shows "\<exists>cpm'. apfs_remove_cpoint_map sb (cpm_paddr (cpm_map cpm ! k)) =
            (None, sb\<lparr>cpm_dev := (cpm_dev sb)(cpm_bno \<mapsto> cpm')\<rparr>) \<and>
          cpm_count cpm' = 2 \<and>
          take 2 (cpm_map cpm') =
            map (renumber sb (cpm_paddr (cpm_map cpm ! k)))
              (take k (take 3 (cpm_map cpm)) @ drop (Suc k) (take 3 (cpm_map cpm))) \<and>
          set (map (data_off sb) (take 2 (cpm_map cpm'))) = {0, 1}"
proof -
  let ?maps = "cpm_map cpm"
  define bno where "bno = cpm_paddr (?maps ! k)"
  let ?blks = "nx_xp_data_blocks (nx_raw sb)"
  have len: "3 \<le> length ?maps" using fits(2) three(1) by simp
  then obtain e0 e1 e2 rest where maps: "?maps = e0 # e1 # e2 # rest"
    by (cases ?maps; cases "tl ?maps"; cases "tl (tl ?maps)") auto
  have "card (set (map (data_off sb) (take 3 ?maps))) = card {0::u32, 1, 2}"
    by (simp only: offs)
  also have "\<dots> = 3" by simp
  finally have "card (set (map (data_off sb) (take 3 ?maps))) =
      length (map (data_off sb) (take 3 ?maps))"
    using len by simp
  then have dist: "distinct (map (data_off sb) (take 3 ?maps))"
    by (rule card_distinct)
  have blks0: "?blks \<noteq> 0" using area by auto
  have "(2::u32) \<in> set (map (data_off sb) (take 3 ?maps))" using offs by simp
  then have "\<exists>p. (2::u32) = apfs_index_in_data_area sb p"
    by (auto simp: data_off_def)
  then have two: "2 < ?blks"
    using index_in_data_area_less[OF blks0] by metis
  then have one: "1 < ?blks"
    by (simp add: word_less_nat_alt)
  have "unat (nx_xp_data_index (nx_raw sb)) < unat ?blks"
    using area by (simp add: word_less_nat_alt)
  then have nowrap: "unat (1::u32) + unat (nx_xp_data_index (nx_raw sb)) < 2 ^ 32"
    using unsigned_less[of ?blks, where 'a=nat] by simp
  have rtrip: "apfs_index_in_data_area sb (apfs_data_index_to_bno sb 1) = 1"
    using index_of_data_index[OF area one nowrap] .
  have boff: "apfs_index_in_data_area sb bno = 1"
    using tgt by (simp add: data_off_def bno_def)
  have ren: "data_off sb (renumber sb bno e) = (if data_off sb e = 2 then 1 else data_off sb e)"
    if "data_off sb e \<in> {0, 1, 2}" for e
    using that rtrip by (auto simp: renumber_def boff data_off_def)
  have k012: "k = 0 \<or> k = 1 \<or> k = 2" using three(2) by auto
  have o012: "data_off sb e0 \<in> {0,1,2}" "data_off sb e1 \<in> {0,1,2}" "data_off sb e2 \<in> {0,1,2}"
    using offs by (auto simp: maps)
  have d3: "data_off sb e0 \<noteq> data_off sb e1" "data_off sb e0 \<noteq> data_off sb e2"
      "data_off sb e1 \<noteq> data_off sb e2"
    using dist by (auto simp: maps)
  have same_off: "\<And>a b. cpm_paddr a = cpm_paddr b \<Longrightarrow> data_off sb a = data_off sb b"
    by (simp add: data_off_def)
  have uniq: "\<forall>i<3. i \<noteq> k \<longrightarrow> cpm_paddr (?maps ! i) \<noteq> bno"
    unfolding bno_def
    using k012 d3 by (auto simp: maps less_Suc_eq numeral_3_eq_3 dest: same_off)
  have lm: "last_match ?maps bno 3 = Some k"
    using three(2) uniq by (intro last_match_unique) (auto simp: bno_def)
  let ?cpm' = "cpm\<lparr>cpm_count := 3 - 1,
      cpm_map := memmove_maps (map (renumber sb bno) (take 3 ?maps) @ drop 3 ?maps) k 3\<rparr>"
  have res: "apfs_remove_cpoint_map sb bno =
      (None, sb\<lparr>cpm_dev := (cpm_dev sb)(cpm_bno \<mapsto> ?cpm')\<rparr>)"
    using rd fits three(1) len lm
    by (simp add: apfs_remove_cpoint_map_def Let_def fold_remove_step not_less[symmetric])
  have tk: "take 2 (cpm_map ?cpm') =
      map (renumber sb bno) (take k (take 3 ?maps) @ drop (Suc k) (take 3 ?maps))"
    using k012 by (auto simp: memmove_maps_def maps)
  have st: "set (map (data_off sb) (take 2 (cpm_map ?cpm'))) = {0, 1}"
    unfolding tk using k012 o012 d3 tgt
    by (auto simp: maps ren)
  have cnt: "cpm_count ?cpm' = 2" by simp
  from res cnt tk st
  have "apfs_remove_cpoint_map sb bno =
            (None, sb\<lparr>cpm_dev := (cpm_dev sb)(cpm_bno \<mapsto> ?cpm')\<rparr>) \<and>
          cpm_count ?cpm' = 2 \<and>
          take 2 (cpm_map ?cpm') =
            map (renumber sb bno)
              (take k (take 3 (cpm_map cpm)) @ drop (Suc k) (take 3 (cpm_map cpm))) \<and>
          set (map (data_off sb) (take 2 (cpm_map ?cpm'))) = {0, 1}"
    by blast
  then show ?thesis
    unfolding bno_def by (rule exI)
qed

text \<open>
  C8.  With the mapping block readable, its count within the block and a valid data-area
  index: when the block holds three entries at the data-area offsets 0, 1 and 2 (in any
  array order), removing the block at offset 1 succeeds, leaves the count at 2 and the
  other two entries in their order, the later one moved back one array position, the one
  from offset 2 renumbered to offset 1, so that the offsets left are 0 and 1.  Removing
  a block number that no entry has returns \<open>EFSCORRUPTED\<close> and leaves the count as it
  was.
\<close>

theorem apfs_remove_cpoint_map_renumbers:
  assumes "apfs_read_cpm_block sb = Some (cpm_bno, cpm)"
    and "cpm_count cpm \<le> max_maps sb" and "unat (cpm_count cpm) \<le> length (cpm_map cpm)"
    and "nx_xp_data_index (nx_raw sb) < nx_xp_data_blocks (nx_raw sb)"
  shows "(cpm_count cpm = 3 \<and> k < 3 \<and>
          set (map (data_off sb) (take 3 (cpm_map cpm))) = {0, 1, 2} \<and>
          data_off sb (cpm_map cpm ! k) = 1 \<longrightarrow>
           (\<exists>cpm'. apfs_remove_cpoint_map sb (cpm_paddr (cpm_map cpm ! k)) =
                     (None, sb\<lparr>cpm_dev := (cpm_dev sb)(cpm_bno \<mapsto> cpm')\<rparr>) \<and>
                   cpm_count cpm' = 2 \<and>
                   take 2 (cpm_map cpm') =
                     map (renumber sb (cpm_paddr (cpm_map cpm ! k)))
                       (take k (take 3 (cpm_map cpm)) @ drop (Suc k) (take 3 (cpm_map cpm))) \<and>
                   set (map (data_off sb) (take 2 (cpm_map cpm'))) = {0, 1})) \<and>
         ((\<forall>i<unat (cpm_count cpm). cpm_paddr (cpm_map cpm ! i) \<noteq> bno) \<longrightarrow>
           (\<exists>cpm'. apfs_remove_cpoint_map sb bno =
                     (Some EFSCORRUPTED, sb\<lparr>cpm_dev := (cpm_dev sb)(cpm_bno \<mapsto> cpm')\<rparr>) \<and>
                   cpm_count cpm' = cpm_count cpm))"
  using remove_three[OF assms] remove_no_match[OF assms(1-3)]
  by blast

lemma example_offsets:
  "data_off (example_cpm_sb n) (example_mapping oid 100) = 0"
  "data_off (example_cpm_sb n) (example_mapping oid 101) = 1"
  "data_off (example_cpm_sb n) (example_mapping oid 102) = 2"
  by (simp_all add: data_off_def apfs_index_in_data_area_def example_cpm_sb_def example_sb_def
      example_raw_def example_mapping_def)

lemma example_renumber:
  "renumber (example_cpm_sb 3) 101 (example_mapping 10 100) = example_mapping 10 100"
  "renumber (example_cpm_sb 3) 101 (example_mapping 12 102) = example_mapping 12 101"
  by (simp_all add: renumber_def apfs_index_in_data_area_def apfs_data_index_to_bno_def
      example_cpm_sb_def example_sb_def example_raw_def example_mapping_def)

theorem apfs_remove_cpoint_map_renumbers_witness:
  "(\<exists>cpm'. apfs_remove_cpoint_map (example_cpm_sb 3) 101 =
             (None, (example_cpm_sb 3)\<lparr>cpm_dev := (cpm_dev (example_cpm_sb 3))(1 \<mapsto> cpm')\<rparr>) \<and>
           cpm_count cpm' = 2 \<and>
           take 2 (cpm_map cpm') = [example_mapping 10 100, example_mapping 12 101] \<and>
           set (map (data_off (example_cpm_sb 3)) (take 2 (cpm_map cpm'))) = {0, 1}) \<and>
   (\<exists>cpm'. apfs_remove_cpoint_map (example_cpm_sb 3) 999 =
             (Some EFSCORRUPTED,
              (example_cpm_sb 3)\<lparr>cpm_dev := (cpm_dev (example_cpm_sb 3))(1 \<mapsto> cpm')\<rparr>) \<and>
           cpm_count cpm' = 3)"
proof -
  let ?sb = "example_cpm_sb 3"
  let ?cpm = "example_cpm 3"
  have h1: "cpm_count ?cpm \<le> max_maps ?sb"
    by (simp add: example_cpm_sb_def example_sb_def example_cpm_def)
  have h2: "unat (cpm_count ?cpm) \<le> length (cpm_map ?cpm)"
    by (simp add: example_cpm_def)
  have h3: "nx_xp_data_index (nx_raw ?sb) < nx_xp_data_blocks (nx_raw ?sb)"
    by (simp add: example_cpm_sb_def example_sb_def example_raw_def)
  have p1: "cpm_count ?cpm = 3 \<and> (1::nat) < 3 \<and>
          set (map (data_off ?sb) (take 3 (cpm_map ?cpm))) = {0, 1, 2} \<and>
          data_off ?sb (cpm_map ?cpm ! 1) = 1"
    by (simp add: example_cpm_def example_offsets)
  have tgt: "cpm_paddr (cpm_map ?cpm ! 1) = 101"
    by (simp add: example_cpm_def example_mapping_def)
  have rest: "map (renumber ?sb 101) (take 1 (take 3 (cpm_map ?cpm)) @ drop (Suc 1) (take 3 (cpm_map ?cpm)))
      = [example_mapping 10 100, example_mapping 12 101]"
    by (simp add: example_cpm_def example_renumber)
  have u3: "unat (cpm_count ?cpm) = 3" by (simp add: example_cpm_def)
  have "\<forall>i<3. cpm_paddr (cpm_map ?cpm ! i) \<noteq> 999"
    by (auto simp: example_cpm_def example_mapping_def less_Suc_eq numeral_3_eq_3)
  then have p2: "\<forall>i<unat (cpm_count ?cpm). cpm_paddr (cpm_map ?cpm ! i) \<noteq> 999"
    by (simp only: u3)
  have c3: "cpm_count ?cpm = 3" by (simp add: example_cpm_def)
  show ?thesis
    using apfs_remove_cpoint_map_renumbers[OF example_cpm_read h1 h2 h3, of 1 999] p1 p2
    unfolding tgt rest c3 by blast
qed

section \<open>Query properties\<close>

lemma visits_mono: "i \<le> j \<Longrightarrow> visits n i \<le> visits n j"
  by (cases n) (simp_all add: add_mono mult_le_mono1)

lemma visits_pos: "0 < visits n i"
  by (cases n) simp_all

lemma visits_descend:
  assumes "i' < i" "c \<le> 2 ^ 31"
  shows "visits n c + visits (Suc n) i' < visits (Suc n) i"
proof -
  let ?V = "visits n (2 ^ 31)"
  have "visits n c \<le> ?V" using assms(2) by (rule visits_mono)
  moreover have "Suc i' * (1 + ?V) \<le> i * (1 + ?V)"
    using assms(1) by (intro mult_le_mono1) simp
  ultimately show ?thesis by simp
qed

lemma set_pos_simps:
  "q_node (set_pos q p) = q_node q" "q_depth (set_pos q p) = q_depth q"
  "q_key (set_pos q p) = q_key q" "q_index (set_pos q p) = p_index p"
  "q_len (set_pos q p) = p_len p" "q_off (set_pos q p) = p_off p"
  by (simp_all add: set_pos_def)

lemma next_node_deep:
  "12 \<le> q_depth query \<Longrightarrow>
   next_node env sb storage query parents = Some (Some EFSCORRUPTED, query # parents)"
  by (subst next_node.simps) simp

lemma next_node_before_first:
  assumes "q_depth query < 12" "apfs_node_query env sb query = (Some ENODATA, pos)"
    and "p_index pos = -1"
  shows "next_node env sb storage query [] =
     (case apfs_query_set_before_first env sb (set_pos query pos) [] of
        (Some err, chain) \<Rightarrow> Some (Some err, chain)
      | (None, chain) \<Rightarrow> Some (Some ENODATA, chain))"
  using assms by (subst next_node.simps) (simp add: Let_def set_pos_simps)

lemma next_node_again_root:
  assumes "q_depth query < 12" "apfs_node_query env sb query = (Some EAGAIN, pos)"
  shows "next_node env sb storage query [] = Some (Some ENODATA, [set_pos query pos])"
  using assms by (subst next_node.simps) (simp add: Let_def)

lemma next_node_again_pop:
  assumes "q_depth query < 12" "apfs_node_query env sb query = (Some EAGAIN, pos)"
  shows "next_node env sb storage query (parent # ancestors) =
         next_node env sb storage parent ancestors"
  using assms by (subst next_node.simps) (simp add: Let_def)

lemma next_node_error:
  assumes "q_depth query < 12" "apfs_node_query env sb query = (Some err, pos)"
    and "err \<noteq> EAGAIN" "\<not> (err = ENODATA \<and> parents = [] \<and> p_index pos = -1)"
  shows "next_node env sb storage query parents = Some (Some err, set_pos query pos # parents)"
  using assms by (subst next_node.simps) (auto simp: Let_def set_pos_simps)

lemma next_node_leaf:
  assumes "q_depth query < 12" "apfs_node_query env sb query = (None, pos)"
    and "apfs_node_is_leaf (q_node query)"
  shows "next_node env sb storage query parents = Some (None, set_pos query pos # parents)"
  using assms by (subst next_node.simps) (simp add: Let_def set_pos_simps)

lemma next_node_bad_child:
  assumes "q_depth query < 12" "apfs_node_query env sb query = (None, pos)"
    and "\<not> apfs_node_is_leaf (q_node query)"
    and "apfs_child_from_query (set_pos query pos) = Inl err"
  shows "next_node env sb storage query parents = Some (Some err, set_pos query pos # parents)"
  using assms by (subst next_node.simps) (simp add: Let_def set_pos_simps)

lemma next_node_read_error:
  assumes "q_depth query < 12" "apfs_node_query env sb query = (None, pos)"
    and "\<not> apfs_node_is_leaf (q_node query)"
    and "apfs_child_from_query (set_pos query pos) = Inr child_id"
    and "apfs_read_node env sb child_id storage = Inl err"
  shows "next_node env sb storage query parents = Some (Some err, set_pos query pos # parents)"
  using assms by (subst next_node.simps) (simp add: Let_def set_pos_simps)

lemma next_node_descend:
  assumes "q_depth query < 12" "apfs_node_query env sb query = (None, pos)"
    and "\<not> apfs_node_is_leaf (q_node query)"
    and "apfs_child_from_query (set_pos query pos) = Inr child_id"
    and "apfs_read_node env sb child_id storage = Inr node"
  shows "next_node env sb storage query parents =
         next_node env sb storage (apfs_alloc_query env node (Some (set_pos query pos)))
           (set_pos query pos # parents)"
  using assms by (subst next_node.simps) (simp add: Let_def set_pos_simps)

lemma next_node_returns:
  assumes "search_goes_backwards env"
  shows "\<exists>r. next_node env sb storage query parents = Some r"
proof (induction "work (query # parents)" arbitrary: query parents rule: less_induct)
  case less
  show ?case
  proof (cases "12 \<le> q_depth query")
    case True
    then show ?thesis by (simp add: next_node_deep)
  next
    case False
    then have deep: "q_depth query < 12" by simp
    obtain err pos where nq: "apfs_node_query env sb query = (err, pos)"
      by (cases "apfs_node_query env sb query")
    let ?q = "set_pos query pos"
    show ?thesis
    proof (cases err)
      case (Some e)
      show ?thesis
      proof (cases "e = EAGAIN")
        case True
        show ?thesis
        proof (cases parents)
          case Nil
          then show ?thesis
            using next_node_again_root[OF deep] nq Some True by simp
        next
          case (Cons parent ancestors)
          have "work (parent # ancestors) < work (query # parents)"
            using visits_pos by (simp add: work_def Cons)
          then have "\<exists>r. next_node env sb storage parent ancestors = Some r"
            by (rule less)
          then show ?thesis
            using next_node_again_pop[OF deep] nq Some True Cons by simp
        qed
      next
        case nag: False
        show ?thesis
        proof (cases "e = ENODATA \<and> parents = [] \<and> p_index pos = -1")
          case True
          then show ?thesis
            using next_node_before_first[OF deep, of env sb pos storage] nq Some
            by (auto split: prod.splits option.splits)
        next
          case False
          then show ?thesis
            using next_node_error[OF deep, of env sb e pos parents storage] nq Some nag by simp
        qed
      qed
    next
      case None
      show ?thesis
      proof (cases "apfs_node_is_leaf (q_node query)")
        case True
        then show ?thesis
          using next_node_leaf[OF deep] nq None by simp
      next
        case nonleaf: False
        show ?thesis
        proof (cases "apfs_child_from_query ?q")
          case (Inl e)
          then show ?thesis
            using next_node_bad_child[OF deep _ nonleaf] nq None by simp
        next
          case child: (Inr child_id)
          show ?thesis
          proof (cases "apfs_read_node env sb child_id storage")
            case (Inl e)
            then show ?thesis
              using next_node_read_error[OF deep _ nonleaf child] nq None by simp
          next
            case (Inr node)
            let ?c = "apfs_alloc_query env node (Some ?q)"
            from assms nq None have idx: "0 \<le> p_index pos" "p_index pos < q_index query"
              by (auto simp: search_goes_backwards_def)
            obtain n where n: "nat (12 - q_depth query) = Suc n"
              using deep by (cases "nat (12 - q_depth query)") auto
            have lc: "nat (12 - q_depth ?c) = n"
              using n by (simp add: apfs_alloc_query_def set_pos_simps)
            have "sint (records node) < 2 ^ 31"
              using sint_lt[of "records node"] by simp
            then have pc: "nat (q_index ?c) \<le> 2 ^ 31"
              by (simp add: apfs_alloc_query_def)
            have pq: "nat (q_index ?q) < nat (q_index query)"
              using idx by (simp add: set_pos_simps)
            have lq: "nat (12 - q_depth ?q) = Suc n"
              using n by (simp add: set_pos_simps)
            have "work (?c # ?q # parents) < work (query # parents)"
              using visits_descend[OF pq pc, of n]
              by (simp add: work_def lc lq n del: visits.simps)
            then have "\<exists>r. next_node env sb storage ?c (?q # parents) = Some r"
              by (rule less)
            then show ?thesis
              using next_node_descend[OF deep _ nonleaf child Inr] nq None by simp
          qed
        qed
      qed
    qed
  qed
qed

lemma next_node_invariant:
  assumes run: "next_node env sb storage query parents = Some (st, chain)"
    and init: "I (query # parents)"
    and search: "\<And>q ps pos. I (q # ps) \<Longrightarrow> I (set_pos q pos # ps)"
    and pop: "\<And>q p ps. I (q # p # ps) \<Longrightarrow> I (p # ps)"
    and push: "\<And>q ps node. I (q # ps) \<Longrightarrow> q_depth q < 12 \<Longrightarrow> q_len q = 8 \<Longrightarrow>
        I (apfs_alloc_query env node (Some q) # q # ps)"
    and before_first: "\<And>q st' chain'. I [q] \<Longrightarrow> q_depth q < 12 \<Longrightarrow>
        apfs_query_set_before_first env sb q [] = (st', chain') \<Longrightarrow> I chain'"
  shows "I chain"
proof -
  have "env = env \<and> sb = sb \<longrightarrow> I (query # parents) \<longrightarrow> I (snd (st, chain))"
  proof (rule next_node.raw_induct[where P = "\<lambda>e s stg q ps r.
      e = env \<and> s = sb \<longrightarrow> I (q # ps) \<longrightarrow> I (snd r)", OF _ run], goal_cases)
    case (1 f env' sb' storage query parents r)
    show ?case
    proof (intro impI, elim conjE)
      assume eq: "env' = env" "sb' = sb" and I0: "I (query # parents)"
      obtain err pos where nq: "apfs_node_query env sb query = (err, pos)"
        by (cases "apfs_node_query env sb query")
      let ?q = "set_pos query pos"
      have Iq: "I (?q # parents)" using I0 by (rule search)
      show "I (snd r)"
      proof (cases "12 \<le> q_depth query")
        case True
        then show ?thesis using 1(2) I0 by auto
      next
        case False
        then have deep: "q_depth query < 12" by simp
        have dq: "q_depth ?q < 12" using deep by (simp add: set_pos_simps)
        show ?thesis
        proof (cases "err = Some ENODATA \<and> parents = [] \<and> q_index ?q = -1")
          case True
          obtain st' chain' where bf: "apfs_query_set_before_first env sb ?q [] = (st', chain')"
            by (cases "apfs_query_set_before_first env sb ?q []")
          have "I chain'" using Iq True dq bf by (auto intro: before_first)
          moreover have "Some r = (case (st', chain') of
                (Some err, chain) \<Rightarrow> Some (Some err, chain)
              | (None, chain) \<Rightarrow> Some (Some ENODATA, chain))"
            using 1(2) False nq True eq by (simp add: Let_def bf)
          then have "snd r = chain'"
            by (cases st') auto
          ultimately show ?thesis by simp
        next
          case nbf: False
          show ?thesis
          proof (cases "err = Some EAGAIN")
            case True
            show ?thesis
            proof (cases parents)
              case Nil
              then show ?thesis
                using 1(2) False nq nbf True eq Iq by (auto simp: Let_def)
            next
              case (Cons parent ancestors)
              then have "f env sb storage parent ancestors = Some r"
                using 1(2) False nq nbf True eq by (auto simp: Let_def)
              then have "I (parent # ancestors) \<longrightarrow> I (snd r)"
                using 1(1) by blast
              moreover have "I (parent # ancestors)"
                using I0 Cons pop by blast
              ultimately show ?thesis by simp
            qed
          next
            case nag: False
            show ?thesis
            proof (cases "err \<noteq> None \<or> apfs_node_is_leaf (q_node ?q)")
              case True
              then have "snd r = ?q # parents"
                using 1(2) False nq nbf nag eq by (auto simp: Let_def split: if_splits)
              then show ?thesis using Iq by simp
            next
              case ok: False
              show ?thesis
              proof (cases "apfs_child_from_query ?q")
                case (Inl e)
                then have "snd r = ?q # parents"
                  using 1(2) False nq nbf nag ok eq by (auto simp: Let_def)
                then show ?thesis using Iq by simp
              next
                case child: (Inr child_id)
                then have len8: "q_len ?q = 8"
                  by (auto simp: apfs_child_from_query_def Let_def split: if_splits)
                show ?thesis
                proof (cases "apfs_read_node env sb child_id storage")
                  case (Inl e)
                  then have "snd r = ?q # parents"
                    using 1(2) False nq nbf nag ok child eq by (auto simp: Let_def)
                  then show ?thesis using Iq by simp
                next
                  case (Inr node)
                  let ?c = "apfs_alloc_query env node (Some ?q)"
                  have "f env sb storage ?c (?q # parents) = Some r"
                    using 1(2) False nq nbf nag ok child Inr eq by (auto simp: Let_def)
                  then have "I (?c # ?q # parents) \<longrightarrow> I (snd r)"
                    using 1(1) by blast
                  moreover have "I (?c # ?q # parents)"
                    using Iq dq len8 by (rule push)
                  ultimately show ?thesis by simp
                qed
              qed
            qed
          qed
        qed
      qed
    qed
  qed
  then show ?thesis using init by simp
qed

lemma child_from_query_len:
  "apfs_child_from_query q = Inr child_id \<Longrightarrow> q_len q = 8"
  by (auto simp: apfs_child_from_query_def Let_def split: if_splits)

lemma query_first_simps:
  "q_index (apfs_node_query_first env q) = 0"
  "q_depth (apfs_node_query_first env q) = q_depth q"
  "q_node (apfs_node_query_first env q) = q_node q"
  by (simp_all add: apfs_node_query_first_def split: prod.splits)

lemma alloc_query_simps:
  "q_depth (apfs_alloc_query env node (Some q)) = q_depth q + 1"
  "q_depth (apfs_alloc_query env node None) = 0"
  "q_node (apfs_alloc_query env node parent) = node"
  "q_index (apfs_alloc_query env node parent) = sint (records node)"
  by (simp_all add: apfs_alloc_query_def)

lemma set_before_first_deep:
  "12 \<le> q_depth query \<Longrightarrow>
   set_before_first_loop env sb storage query parents = (Some EFSCORRUPTED, query # parents)"
  by (simp add: set_before_first_loop.simps)

lemma set_before_first_leaf:
  "q_depth query < 12 \<Longrightarrow> apfs_node_is_leaf (q_node query) \<Longrightarrow>
   set_before_first_loop env sb storage query parents = (None, query\<lparr>q_index := -1\<rparr> # parents)"
  by (simp add: set_before_first_loop.simps)

lemma set_before_first_bad_child:
  "q_depth query < 12 \<Longrightarrow> \<not> apfs_node_is_leaf (q_node query) \<Longrightarrow>
   apfs_child_from_query (apfs_node_query_first env query) = Inl err \<Longrightarrow>
   set_before_first_loop env sb storage query parents =
     (Some err, apfs_node_query_first env query # parents)"
  by (simp add: set_before_first_loop.simps Let_def)

lemma set_before_first_descend:
  "q_depth query < 12 \<Longrightarrow> \<not> apfs_node_is_leaf (q_node query) \<Longrightarrow>
   apfs_child_from_query (apfs_node_query_first env query) = Inr child_id \<Longrightarrow>
   apfs_read_node env sb child_id storage = Inr node \<Longrightarrow>
   set_before_first_loop env sb storage query parents =
     set_before_first_loop env sb storage
       (apfs_alloc_query env node (Some (apfs_node_query_first env query)))
       (apfs_node_query_first env query # parents)"
  by (simp add: set_before_first_loop.simps[of env sb storage query] Let_def)

lemma set_before_first_loop_shape:
  "set_before_first_loop env sb storage query parents = (st, chain) \<Longrightarrow>
   \<exists>top new. chain = top # new @ parents \<and>
     (\<forall>f\<in>set new. q_index f = 0 \<and> q_len f = 8 \<and> q_depth f < 12) \<and>
     q_depth top \<le> max 12 (q_depth query) \<and>
     (st = None \<longrightarrow> q_index top = -1 \<and> apfs_node_is_leaf (q_node top) \<and> q_depth top < 12)"
proof (induction env sb storage query parents arbitrary: st chain
    rule: set_before_first_loop.induct)
  case (1 env sb storage query parents)
  let ?q = "apfs_node_query_first env query"
  show ?case
  proof (cases "q_depth query < 12")
    case False
    then have "chain = query # parents" "st = Some EFSCORRUPTED"
      using "1.prems" by (simp_all add: set_before_first_loop.simps)
    then show ?thesis by simp
  next
    case deep: True
    show ?thesis
    proof (cases "apfs_node_is_leaf (q_node query)")
      case True
      then have "chain = query\<lparr>q_index := -1\<rparr> # parents" "st = None"
        using "1.prems" deep by (simp_all add: set_before_first_loop.simps)
      then show ?thesis using deep True by simp
    next
      case nonleaf: False
      show ?thesis
      proof (cases "apfs_child_from_query ?q")
        case (Inl e)
        then have "chain = ?q # parents" "st = Some e"
          using "1.prems" deep nonleaf by (simp_all add: set_before_first_loop.simps Let_def)
        then show ?thesis by (simp add: query_first_simps)
      next
        case child: (Inr child_id)
        show ?thesis
        proof (cases "apfs_read_node env sb child_id storage")
          case (Inl e)
          then have "chain = ?q # parents" "st = Some e"
            using "1.prems" deep nonleaf child
            by (simp_all add: set_before_first_loop.simps Let_def)
          then show ?thesis by (simp add: query_first_simps)
        next
          case (Inr node)
          let ?c = "apfs_alloc_query env node (Some ?q)"
          have run: "set_before_first_loop env sb storage ?c (?q # parents) = (st, chain)"
            using "1.prems" deep nonleaf child Inr
            by (simp add: set_before_first_loop.simps[of env sb storage query] Let_def)
          from "1.IH"[OF deep nonleaf refl child Inr run]
          obtain top new where tn: "chain = top # new @ ?q # parents"
            "\<forall>f\<in>set new. q_index f = 0 \<and> q_len f = 8 \<and> q_depth f < 12"
            "q_depth top \<le> max 12 (q_depth ?c)"
            "st = None \<longrightarrow> q_index top = -1 \<and> apfs_node_is_leaf (q_node top) \<and> q_depth top < 12"
            by blast
          have "chain = top # (new @ [?q]) @ parents" using tn(1) by simp
          moreover have "\<forall>f\<in>set (new @ [?q]). q_index f = 0 \<and> q_len f = 8 \<and> q_depth f < 12"
            using tn(2) deep child_from_query_len[OF child] by (auto simp: query_first_simps)
          moreover have "q_depth top \<le> max 12 (q_depth query)"
            using tn(3) deep by (simp add: alloc_query_simps query_first_simps)
          ultimately show ?thesis using tn(4) by blast
        qed
      qed
    qed
  qed
qed

lemma next_node_depth_bound:
  assumes "next_node env sb storage query parents = Some (st, chain)"
    and "\<forall>f\<in>set (query # parents). q_depth f \<le> 12"
  shows "\<forall>f\<in>set chain. q_depth f \<le> 12"
proof (rule next_node_invariant[OF assms(1), where I = "\<lambda>c. \<forall>f\<in>set c. q_depth f \<le> 12"])
  show "\<forall>f\<in>set (query # parents). q_depth f \<le> 12" by (rule assms(2))
next
  fix q :: "'a apfs_query" and ps pos
  assume "\<forall>f\<in>set (q # ps). q_depth f \<le> 12"
  then show "\<forall>f\<in>set (set_pos q pos # ps). q_depth f \<le> 12"
    by (simp add: set_pos_simps)
next
  fix q p :: "'a apfs_query" and ps
  assume "\<forall>f\<in>set (q # p # ps). q_depth f \<le> 12"
  then show "\<forall>f\<in>set (p # ps). q_depth f \<le> 12" by simp
next
  fix q :: "'a apfs_query" and ps node
  assume "\<forall>f\<in>set (q # ps). q_depth f \<le> 12" "q_depth q < 12" "q_len q = 8"
  then show "\<forall>f\<in>set (apfs_alloc_query env node (Some q) # q # ps). q_depth f \<le> 12"
    by (simp add: alloc_query_simps)
next
  fix q :: "'a apfs_query" and st' chain'
  assume a: "\<forall>f\<in>set [q]. q_depth f \<le> 12" "q_depth q < 12"
    "apfs_query_set_before_first env sb q [] = (st', chain')"
  from set_before_first_loop_shape[OF a(3)[unfolded apfs_query_set_before_first_def]]
  show "\<forall>f\<in>set chain'. q_depth f \<le> 12"
    using a(2) by fastforce
qed

lemma next_node_child_lengths:
  assumes "next_node env sb storage query parents = Some (st, chain)"
    and "\<forall>f\<in>set parents. q_len f = 8"
  shows "\<forall>f\<in>set (tl chain). q_len f = 8"
proof (rule next_node_invariant[OF assms(1), where I = "\<lambda>c. \<forall>f\<in>set (tl c). q_len f = 8"])
  show "\<forall>f\<in>set (tl (query # parents)). q_len f = 8" using assms(2) by simp
next
  fix q :: "'a apfs_query" and ps pos
  assume "\<forall>f\<in>set (tl (q # ps)). q_len f = 8"
  then show "\<forall>f\<in>set (tl (set_pos q pos # ps)). q_len f = 8" by simp
next
  fix q p :: "'a apfs_query" and ps
  assume "\<forall>f\<in>set (tl (q # p # ps)). q_len f = 8"
  then show "\<forall>f\<in>set (tl (p # ps)). q_len f = 8" by simp
next
  fix q :: "'a apfs_query" and ps node
  assume "\<forall>f\<in>set (tl (q # ps)). q_len f = 8" "q_depth q < 12" "q_len q = 8"
  then show "\<forall>f\<in>set (tl (apfs_alloc_query env node (Some q) # q # ps)). q_len f = 8"
    by simp
next
  fix q :: "'a apfs_query" and st' chain'
  assume a: "\<forall>f\<in>set (tl [q]). q_len f = 8" "q_depth q < 12"
    "apfs_query_set_before_first env sb q [] = (st', chain')"
  from set_before_first_loop_shape[OF a(3)[unfolded apfs_query_set_before_first_def]]
  show "\<forall>f\<in>set (tl chain'). q_len f = 8"
    by fastforce
qed

text \<open>
  C3.  Provided a successful node search leaves the query before the position it started
  from, \<open>apfs_btree_query\<close> returns for every tree and every query chain.  A query
  whose depth has reached 12 is answered with \<open>EFSCORRUPTED\<close> at once, no chain that
  started within 12 levels ever holds a deeper query, and the before-first descent, which
  always returns, obeys the same bound and gives the same error at depth 12.
\<close>

theorem apfs_btree_query_terminates:
  assumes "search_goes_backwards env"
  shows "(\<exists>r. apfs_btree_query env sb query parents = Some r) \<and>
         (12 \<le> q_depth query \<longrightarrow>
            apfs_btree_query env sb query parents = Some (Some EFSCORRUPTED, query # parents)) \<and>
         (\<forall>st chain. apfs_btree_query env sb query parents = Some (st, chain) \<and>
            (\<forall>f\<in>set (query # parents). q_depth f \<le> 12) \<longrightarrow>
            (\<forall>f\<in>set chain. q_depth f \<le> 12)) \<and>
         (12 \<le> q_depth query \<longrightarrow>
            apfs_query_set_before_first env sb query parents =
              (Some EFSCORRUPTED, query # parents)) \<and>
         ((\<forall>f\<in>set (query # parents). q_depth f \<le> 12) \<longrightarrow>
            (\<forall>f\<in>set (snd (apfs_query_set_before_first env sb query parents)). q_depth f \<le> 12))"
proof (intro conjI allI impI)
  show "\<exists>r. apfs_btree_query env sb query parents = Some r"
    unfolding apfs_btree_query_def using assms by (rule next_node_returns)
next
  assume "12 \<le> q_depth query"
  then show "apfs_btree_query env sb query parents = Some (Some EFSCORRUPTED, query # parents)"
    by (simp add: apfs_btree_query_def next_node_deep)
next
  fix st chain
  assume "apfs_btree_query env sb query parents = Some (st, chain) \<and>
            (\<forall>f\<in>set (query # parents). q_depth f \<le> 12)"
  then show "\<forall>f\<in>set chain. q_depth f \<le> 12"
    unfolding apfs_btree_query_def using next_node_depth_bound by blast
next
  assume "12 \<le> q_depth query"
  then show "apfs_query_set_before_first env sb query parents =
              (Some EFSCORRUPTED, query # parents)"
    by (simp add: apfs_query_set_before_first_def set_before_first_loop.simps)
next
  assume a: "\<forall>f\<in>set (query # parents). q_depth f \<le> 12"
  obtain st chain where r: "apfs_query_set_before_first env sb query parents = (st, chain)"
    by (cases "apfs_query_set_before_first env sb query parents")
  from set_before_first_loop_shape[OF r[unfolded apfs_query_set_before_first_def]] a
  show "\<forall>f\<in>set (snd (apfs_query_set_before_first env sb query parents)). q_depth f \<le> 12"
    unfolding r by fastforce
qed

text \<open>
  C10.  A value whose length is not 8 is never taken for a child id:
  \<open>apfs_child_from_query\<close> answers \<open>EFSCORRUPTED\<close>; a descent step of
  \<open>apfs_btree_query\<close> or of the before-first descent that selects such a record in a
  nonleaf node returns \<open>EFSCORRUPTED\<close> with the chain left at that node, whatever
  \<open>apfs_read_node\<close> would have answered; and in every chain that \<open>apfs_btree_query\<close>
  returns, each query with a child below it holds a value of length 8 (given that of the
  ancestors it was started with).
\<close>

theorem child_pointer_length_checked:
  "(q_len query \<noteq> 8 \<longrightarrow> apfs_child_from_query query = Inl EFSCORRUPTED) \<and>
   (q_depth query < 12 \<and> apfs_node_query env sb query = (None, pos) \<and>
    \<not> apfs_node_is_leaf (q_node query) \<and> p_len pos \<noteq> 8 \<longrightarrow>
      (\<forall>rd. apfs_btree_query (env\<lparr>apfs_read_node := rd\<rparr>) sb query parents =
             Some (Some EFSCORRUPTED, set_pos query pos # parents))) \<and>
   (q_depth query < 12 \<and> \<not> apfs_node_is_leaf (q_node query) \<and>
    q_len (apfs_node_query_first env query) \<noteq> 8 \<longrightarrow>
      (\<forall>rd. apfs_query_set_before_first (env\<lparr>apfs_read_node := rd\<rparr>) sb query parents =
             (Some EFSCORRUPTED, apfs_node_query_first env query # parents))) \<and>
   (\<forall>st chain. apfs_btree_query env sb query parents = Some (st, chain) \<and>
      (\<forall>f\<in>set parents. q_len f = 8) \<longrightarrow> (\<forall>f\<in>set (tl chain). q_len f = 8))"
proof (intro conjI allI impI)
  assume "q_len query \<noteq> 8"
  then show "apfs_child_from_query query = Inl EFSCORRUPTED"
    by (simp add: apfs_child_from_query_def)
next
  fix rd
  assume a: "q_depth query < 12 \<and> apfs_node_query env sb query = (None, pos) \<and>
    \<not> apfs_node_is_leaf (q_node query) \<and> p_len pos \<noteq> 8"
  let ?env = "env\<lparr>apfs_read_node := rd\<rparr>"
  have "apfs_child_from_query (set_pos query pos) = Inl EFSCORRUPTED"
    using a by (simp add: apfs_child_from_query_def set_pos_simps)
  moreover have "apfs_node_query ?env sb query = (None, pos)"
    using a by simp
  ultimately show "apfs_btree_query ?env sb query parents =
      Some (Some EFSCORRUPTED, set_pos query pos # parents)"
    using a by (simp add: apfs_btree_query_def next_node_bad_child)
next
  fix rd
  assume a: "q_depth query < 12 \<and> \<not> apfs_node_is_leaf (q_node query) \<and>
    q_len (apfs_node_query_first env query) \<noteq> 8"
  let ?env = "env\<lparr>apfs_read_node := rd\<rparr>"
  have same: "apfs_node_query_first ?env query = apfs_node_query_first env query"
    by (simp add: apfs_node_query_first_def)
  have "apfs_child_from_query (apfs_node_query_first env query) = Inl EFSCORRUPTED"
    using a by (simp add: apfs_child_from_query_def)
  then show "apfs_query_set_before_first ?env sb query parents =
      (Some EFSCORRUPTED, apfs_node_query_first env query # parents)"
    using a same
    by (simp add: apfs_query_set_before_first_def set_before_first_loop.simps[of ?env] Let_def)
next
  fix st chain
  assume "apfs_btree_query env sb query parents = Some (st, chain) \<and>
      (\<forall>f\<in>set parents. q_len f = 8)"
  then show "\<forall>f\<in>set (tl chain). q_len f = 8"
    unfolding apfs_btree_query_def using next_node_child_lengths by blast
qed

text \<open>
  C7.  A query started at the root (no parent) whose node search reports not-found with
  index -1 goes down the first child of every level.  When that descent reaches a leaf,
  \<open>apfs_btree_query\<close> returns \<open>ENODATA\<close> with the leaf query at index -1 and every
  ancestor query at index 0; when the descent fails, its error is returned instead.  A
  query that has a parent, or whose search does not end at index -1, and whose node search
  reports not-found returns \<open>ENODATA\<close> with the chain as the search left it, without the
  before-first descent.
\<close>

theorem before_first_positions:
  assumes "q_depth query < 12"
    and "apfs_node_query env sb query = (Some ENODATA, pos)"
  shows "(p_index pos = -1 \<longrightarrow>
           (\<forall>chain. apfs_query_set_before_first env sb (set_pos query pos) [] = (None, chain) \<longrightarrow>
              apfs_btree_query env sb query [] = Some (Some ENODATA, chain) \<and>
              q_index (hd chain) = -1 \<and> apfs_node_is_leaf (q_node (hd chain)) \<and>
              (\<forall>f\<in>set (tl chain). q_index f = 0)) \<and>
           (\<forall>err chain. apfs_query_set_before_first env sb (set_pos query pos) [] = (Some err, chain) \<longrightarrow>
              apfs_btree_query env sb query [] = Some (Some err, chain))) \<and>
         (parents \<noteq> [] \<or> p_index pos \<noteq> -1 \<longrightarrow>
            apfs_btree_query env sb query parents = Some (Some ENODATA, set_pos query pos # parents))"
proof (intro conjI allI impI)
  fix chain
  assume idx: "p_index pos = -1"
    and bf: "apfs_query_set_before_first env sb (set_pos query pos) [] = (None, chain)"
  show "apfs_btree_query env sb query [] = Some (Some ENODATA, chain)"
    using next_node_before_first[OF assms idx] bf by (simp add: apfs_btree_query_def)
  from set_before_first_loop_shape[OF bf[unfolded apfs_query_set_before_first_def]]
  obtain top new where tn: "chain = top # new @ []"
    "\<forall>f\<in>set new. q_index f = 0 \<and> q_len f = 8 \<and> q_depth f < 12"
    "q_index top = -1 \<and> apfs_node_is_leaf (q_node top) \<and> q_depth top < 12"
    by blast
  show "q_index (hd chain) = -1" "apfs_node_is_leaf (q_node (hd chain))"
    using tn by simp_all
  show "\<forall>f\<in>set (tl chain). q_index f = 0"
    using tn by simp
next
  fix err chain
  assume idx: "p_index pos = -1"
    and bf: "apfs_query_set_before_first env sb (set_pos query pos) [] = (Some err, chain)"
  show "apfs_btree_query env sb query [] = Some (Some err, chain)"
    using next_node_before_first[OF assms idx] bf by (simp add: apfs_btree_query_def)
next
  assume "parents \<noteq> [] \<or> p_index pos \<noteq> -1"
  then show "apfs_btree_query env sb query parents =
      Some (Some ENODATA, set_pos query pos # parents)"
    using next_node_error[OF assms, of parents] by (auto simp: apfs_btree_query_def)
qed

lemma search_backwards_contract: "search_goes_backwards (example_btree_env search_backwards nodes n)"
  by (auto simp: search_goes_backwards_def example_btree_env_def search_backwards_def
      split: if_splits)

lemma index_node_child:
  "q_node q = index_node c \<Longrightarrow> q_off q = 0 \<Longrightarrow> q_len q = 8 \<Longrightarrow> apfs_child_from_query q = Inr c"
  by (simp add: apfs_child_from_query_def index_node_def le64_to_cpu_cpu_to_le64)

lemma cycle_run:
  assumes "q_node q = index_node 5" "q_index q = 1" "q_depth q = 12 - int n" "n \<le> 12"
  shows "\<exists>chain. next_node cycle_env sb storage q ps = Some (Some EFSCORRUPTED, chain) \<and>
           length chain = length ps + n + 1 \<and> q_depth (hd chain) = 12"
  using assms
proof (induction n arbitrary: q ps)
  case 0
  then show ?case by (simp add: next_node_deep)
next
  case (Suc n)
  let ?pos = "\<lparr>p_flags = q_flags q, p_index = 0, p_key_off = 8, p_key_len = 8,
                   p_off = 0, p_len = 8\<rparr>"
  let ?q = "set_pos q ?pos"
  let ?c = "apfs_alloc_query cycle_env (index_node 5) (Some ?q)"
  have deep: "q_depth q < 12" using Suc.prems by simp
  have nq: "apfs_node_query cycle_env sb q = (None, ?pos)"
    using Suc.prems by (simp add: cycle_env_def example_btree_env_def search_backwards_def)
  have nonleaf: "\<not> apfs_node_is_leaf (q_node q)"
    using Suc.prems by (simp add: index_node_def)
  have child: "apfs_child_from_query ?q = Inr 5"
    using Suc.prems by (intro index_node_child) (simp_all add: set_pos_def)
  have rd: "apfs_read_node cycle_env sb 5 storage = Inr (index_node 5)"
    by (simp add: cycle_env_def example_btree_env_def)
  have step: "next_node cycle_env sb storage q ps = next_node cycle_env sb storage ?c (?q # ps)"
    using next_node_descend[OF deep nq nonleaf child rd] .
  have "\<exists>chain. next_node cycle_env sb storage ?c (?q # ps) = Some (Some EFSCORRUPTED, chain) \<and>
           length chain = length (?q # ps) + n + 1 \<and> q_depth (hd chain) = 12"
    using Suc.prems
    by (intro Suc.IH) (simp_all add: alloc_query_simps set_pos_simps index_node_def)
  then show ?case using step by simp
qed

theorem apfs_btree_query_terminates_witness:
  "(\<exists>r. apfs_btree_query cycle_env (example_sb Map.empty Map.empty)
          (root_query cycle_env (index_node 5)) [] = Some r) \<and>
   (\<exists>chain. apfs_btree_query cycle_env (example_sb Map.empty Map.empty)
          (root_query cycle_env (index_node 5)) [] = Some (Some EFSCORRUPTED, chain) \<and>
        length chain = 13 \<and> q_depth (hd chain) = 12 \<and> list_all (\<lambda>f. q_depth f \<le> 12) chain) \<and>
   apfs_btree_query cycle_env (example_sb Map.empty Map.empty)
     ((root_query cycle_env (index_node 5))\<lparr>q_depth := 12\<rparr>) [] =
       Some (Some EFSCORRUPTED, [(root_query cycle_env (index_node 5))\<lparr>q_depth := 12\<rparr>]) \<and>
   apfs_query_set_before_first cycle_env (example_sb Map.empty Map.empty)
     ((root_query cycle_env (index_node 5))\<lparr>q_depth := 12\<rparr>) [] =
       (Some EFSCORRUPTED, [(root_query cycle_env (index_node 5))\<lparr>q_depth := 12\<rparr>])"
proof -
  let ?sb = "example_sb Map.empty Map.empty"
  let ?Q = "root_query cycle_env (index_node 5)"
  have H: "search_goes_backwards cycle_env"
    by (simp add: cycle_env_def search_backwards_contract)
  note thm0 = apfs_btree_query_terminates[OF H, of ?sb ?Q "[]"]
  note thm12 = apfs_btree_query_terminates[OF H, of ?sb "?Q\<lparr>q_depth := 12\<rparr>" "[]"]
  have run: "\<exists>chain. apfs_btree_query cycle_env ?sb ?Q [] = Some (Some EFSCORRUPTED, chain) \<and>
      length chain = length ([] :: (u64 \<times> u64) apfs_query list) + 12 + 1 \<and> q_depth (hd chain) = 12"
    unfolding apfs_btree_query_def
    by (rule cycle_run)
       (simp_all add: root_query_def alloc_query_simps index_node_def apfs_alloc_query_def)
  then obtain chain where chain: "apfs_btree_query cycle_env ?sb ?Q [] = Some (Some EFSCORRUPTED, chain)"
    "length chain = 13" "q_depth (hd chain) = 12" by auto
  have "\<forall>f\<in>set [?Q]. q_depth f \<le> 12"
    by (simp add: root_query_def alloc_query_simps apfs_alloc_query_def)
  then have "\<forall>f\<in>set chain. q_depth f \<le> 12"
    using thm0[THEN conjunct2, THEN conjunct2, THEN conjunct1] chain(1) by blast
  then have all: "list_all (\<lambda>f. q_depth f \<le> 12) chain"
    by (simp add: list_all_iff)
  have d12: "12 \<le> q_depth (?Q\<lparr>q_depth := 12\<rparr>)" by simp
  have c1: "\<exists>r. apfs_btree_query cycle_env ?sb ?Q [] = Some r"
    using thm0[THEN conjunct1] .
  have c3: "apfs_btree_query cycle_env ?sb (?Q\<lparr>q_depth := 12\<rparr>) [] =
       Some (Some EFSCORRUPTED, [?Q\<lparr>q_depth := 12\<rparr>])"
    using thm12[THEN conjunct2, THEN conjunct1] d12 by (rule mp)
  have c4: "apfs_query_set_before_first cycle_env ?sb (?Q\<lparr>q_depth := 12\<rparr>) [] =
       (Some EFSCORRUPTED, [?Q\<lparr>q_depth := 12\<rparr>])"
    using thm12[THEN conjunct2, THEN conjunct2, THEN conjunct2, THEN conjunct1] d12 by (rule mp)
  show ?thesis
    using c1 chain all c3 c4 by blast
qed

lemma root_query_simps:
  "q_depth (root_query env node) = 0" "q_node (root_query env node) = node"
  "q_index (root_query env node) = sint (records node)" "q_len (root_query env node) = 0"
  by (simp_all add: root_query_def apfs_alloc_query_def)

lemma tree_env_simps:
  "apfs_node_query (tree_env search n) = search"
  "apfs_read_node (tree_env search n) sb 6 storage = Inr leaf_node"
  "locate_record (tree_env search n) node i = (8, 8, 0, n)"
  by (simp_all add: tree_env_def example_btree_env_def)

lemma tree_run:
  "\<exists>rootq leafq. apfs_btree_query (tree_env search_backwards 8) sb
       (root_query (tree_env search_backwards 8) (index_node 6)) [] = Some (None, [leafq, rootq]) \<and>
     q_len rootq = 8 \<and> q_index rootq = 0 \<and> q_index leafq = 0 \<and> q_node leafq = leaf_node"
proof -
  let ?E = "tree_env search_backwards 8"
  let ?Q = "root_query ?E (index_node 6)"
  let ?st = "apfs_query_storage ?E ?Q"
  let ?pos = "snd (search_backwards sb ?Q)"
  let ?rootq = "set_pos ?Q ?pos"
  let ?c = "apfs_alloc_query ?E leaf_node (Some ?rootq)"
  let ?lpos = "snd (search_backwards sb ?c)"
  have i1: "q_index ?Q = 1" by (simp add: root_query_simps index_node_def)
  have nq: "apfs_node_query ?E sb ?Q = (None, ?pos)"
    using i1 by (simp add: tree_env_simps search_backwards_def)
  have nonleaf: "\<not> apfs_node_is_leaf (q_node ?Q)"
    by (simp add: root_query_simps index_node_def)
  have child: "apfs_child_from_query ?rootq = Inr 6"
    using i1 by (intro index_node_child)
      (simp_all add: set_pos_simps root_query_simps search_backwards_def)
  have s1: "next_node ?E sb ?st ?Q [] = next_node ?E sb ?st ?c [?rootq]"
    by (rule next_node_descend[OF _ nq nonleaf child])
       (simp_all add: root_query_simps tree_env_simps)
  have i2: "q_index ?c = 1" by (simp add: alloc_query_simps leaf_node_def)
  have nq2: "apfs_node_query ?E sb ?c = (None, ?lpos)"
    using i2 by (simp add: tree_env_simps search_backwards_def)
  have s2: "next_node ?E sb ?st ?c [?rootq] = Some (None, [set_pos ?c ?lpos, ?rootq])"
    by (rule next_node_leaf[OF _ nq2])
       (simp_all add: alloc_query_simps set_pos_simps root_query_simps leaf_node_def)
  have "q_len ?rootq = 8" "q_index ?rootq = 0"
    using i1 by (simp_all add: set_pos_simps search_backwards_def)
  moreover have "q_index (set_pos ?c ?lpos) = 0" "q_node (set_pos ?c ?lpos) = leaf_node"
    using i2 by (simp_all add: set_pos_simps search_backwards_def alloc_query_simps)
  ultimately show ?thesis
    unfolding apfs_btree_query_def s1 s2 by blast
qed

theorem child_pointer_length_checked_witness:
  "apfs_child_from_query (root_query (tree_env search_short_value 4) (index_node 6)) =
     Inl EFSCORRUPTED \<and>
   (\<forall>rd. apfs_btree_query ((tree_env search_short_value 4)\<lparr>apfs_read_node := rd\<rparr>)
            (example_sb Map.empty Map.empty)
            (root_query (tree_env search_short_value 4) (index_node 6)) [] =
          Some (Some EFSCORRUPTED,
            [set_pos (root_query (tree_env search_short_value 4) (index_node 6))
               (snd (search_short_value (example_sb Map.empty Map.empty)
                  (root_query (tree_env search_short_value 4) (index_node 6))))])) \<and>
   (\<forall>rd. apfs_query_set_before_first ((tree_env search_short_value 4)\<lparr>apfs_read_node := rd\<rparr>)
            (example_sb Map.empty Map.empty)
            (root_query (tree_env search_short_value 4) (index_node 6)) [] =
          (Some EFSCORRUPTED,
            [apfs_node_query_first (tree_env search_short_value 4)
               (root_query (tree_env search_short_value 4) (index_node 6))])) \<and>
   (\<exists>chain. apfs_btree_query (tree_env search_backwards 8) (example_sb Map.empty Map.empty)
        (root_query (tree_env search_backwards 8) (index_node 6)) [] = Some (None, chain) \<and>
      length chain = 2 \<and> list_all (\<lambda>f. q_len f = 8) (tl chain))"
proof -
  let ?sb = "example_sb Map.empty Map.empty"
  let ?E = "tree_env search_short_value 4"
  let ?Q = "root_query ?E (index_node 6)"
  let ?P = "snd (search_short_value ?sb ?Q)"
  note t = child_pointer_length_checked[of ?Q ?E ?sb ?P "[]"]
  have h1: "q_len ?Q \<noteq> 8" by (simp add: root_query_simps)
  have h2: "q_depth ?Q < 12 \<and> apfs_node_query ?E ?sb ?Q = (None, ?P) \<and>
      \<not> apfs_node_is_leaf (q_node ?Q) \<and> p_len ?P \<noteq> 8"
    by (simp add: root_query_simps tree_env_simps search_short_value_def index_node_def)
  have h3: "q_depth ?Q < 12 \<and> \<not> apfs_node_is_leaf (q_node ?Q) \<and>
      q_len (apfs_node_query_first ?E ?Q) \<noteq> 8"
    by (simp add: root_query_simps tree_env_simps apfs_node_query_first_def index_node_def)
  have c1: "apfs_child_from_query ?Q = Inl EFSCORRUPTED"
    using t[THEN conjunct1] h1 by (rule mp)
  have c2: "\<forall>rd. apfs_btree_query (?E\<lparr>apfs_read_node := rd\<rparr>) ?sb ?Q [] =
      Some (Some EFSCORRUPTED, [set_pos ?Q ?P])"
    using t[THEN conjunct2, THEN conjunct1] h2 by (rule mp)
  have c3: "\<forall>rd. apfs_query_set_before_first (?E\<lparr>apfs_read_node := rd\<rparr>) ?sb ?Q [] =
      (Some EFSCORRUPTED, [apfs_node_query_first ?E ?Q])"
    using t[THEN conjunct2, THEN conjunct2, THEN conjunct1] h3 by (rule mp)
  let ?E8 = "tree_env search_backwards 8"
  let ?Q8 = "root_query ?E8 (index_node 6)"
  obtain rootq leafq where run: "apfs_btree_query ?E8 ?sb ?Q8 [] = Some (None, [leafq, rootq])"
    using tree_run[of ?sb] by blast
  have "\<forall>f\<in>set (tl [leafq, rootq]). q_len f = 8"
    using child_pointer_length_checked[of ?Q8 ?E8 ?sb undefined "[]",
        THEN conjunct2, THEN conjunct2, THEN conjunct2] run
    by (metis empty_iff list.set(1))
  then have c4: "\<exists>chain. apfs_btree_query ?E8 ?sb ?Q8 [] = Some (None, chain) \<and>
      length chain = 2 \<and> list_all (\<lambda>f. q_len f = 8) (tl chain)"
    using run by (intro exI[of _ "[leafq, rootq]"]) simp
  show ?thesis
    using c1 c2 c3 c4 by blast
qed

theorem before_first_positions_witness:
  "apfs_btree_query (tree_env search_before_all 8) (example_sb Map.empty Map.empty)
     (root_query (tree_env search_before_all 8) (index_node 6)) [] =
       Some (Some ENODATA, first_child_chain) \<and>
   length first_child_chain = 2 \<and>
   q_index (hd first_child_chain) = -1 \<and>
   apfs_node_is_leaf (q_node (hd first_child_chain)) \<and>
   list_all (\<lambda>f. q_index f = 0) (tl first_child_chain) \<and>
   apfs_btree_query (tree_env search_before_all 8) (example_sb Map.empty Map.empty)
     (root_query (tree_env search_before_all 8) (index_node 6))
     [root_query (tree_env search_before_all 8) (index_node 5)] =
       Some (Some ENODATA,
         [set_pos (root_query (tree_env search_before_all 8) (index_node 6))
            (snd (search_before_all (example_sb Map.empty Map.empty)
               (root_query (tree_env search_before_all 8) (index_node 6)))),
          root_query (tree_env search_before_all 8) (index_node 5)])"
proof -
  let ?sb = "example_sb Map.empty Map.empty"
  let ?E = "tree_env search_before_all 8"
  let ?Q = "root_query ?E (index_node 6)"
  let ?P = "snd (search_before_all ?sb ?Q)"
  let ?A = "root_query ?E (index_node 5)"
  have h1: "q_depth ?Q < 12" by (simp add: root_query_simps)
  have h2: "apfs_node_query ?E ?sb ?Q = (Some ENODATA, ?P)"
    by (simp add: tree_env_simps search_before_all_def)
  note t = before_first_positions[OF h1 h2, of "[?A]"]
  have idx: "p_index ?P = -1" by (simp add: search_before_all_def)
  let ?rootq = "apfs_node_query_first ?E (set_pos ?Q ?P)"
  have child: "apfs_child_from_query ?rootq = Inr 6"
    by (intro index_node_child)
       (simp_all add: apfs_node_query_first_def tree_env_simps set_pos_simps root_query_simps)
  let ?st = "apfs_query_storage ?E (set_pos ?Q ?P)"
  let ?c = "apfs_alloc_query ?E leaf_node (Some ?rootq)"
  have s1: "set_before_first_loop ?E ?sb ?st (set_pos ?Q ?P) [] =
      set_before_first_loop ?E ?sb ?st ?c [?rootq]"
    by (rule set_before_first_descend[OF _ _ child])
       (simp_all add: set_pos_simps root_query_simps index_node_def tree_env_simps)
  have s2: "set_before_first_loop ?E ?sb ?st ?c [?rootq] = (None, [?c\<lparr>q_index := -1\<rparr>, ?rootq])"
    by (rule set_before_first_leaf)
       (simp_all add: alloc_query_simps query_first_simps set_pos_simps root_query_simps
          leaf_node_def)
  have bf: "apfs_query_set_before_first ?E ?sb (set_pos ?Q ?P) [] = (None, first_child_chain)"
    unfolding apfs_query_set_before_first_def s1 s2
    by (simp add: first_child_chain_def Let_def)
  from t[THEN conjunct1] idx bf
  have main: "apfs_btree_query ?E ?sb ?Q [] = Some (Some ENODATA, first_child_chain) \<and>
      q_index (hd first_child_chain) = -1 \<and> apfs_node_is_leaf (q_node (hd first_child_chain)) \<and>
      (\<forall>f\<in>set (tl first_child_chain). q_index f = 0)"
    by blast
  have len: "length first_child_chain = 2"
    by (simp add: first_child_chain_def Let_def)
  have anc: "apfs_btree_query ?E ?sb ?Q [?A] = Some (Some ENODATA, [set_pos ?Q ?P, ?A])"
    using t[THEN conjunct2] by simp
  show ?thesis
    using main len anc by (simp add: list_all_iff)
qed

section \<open>Object-map properties\<close>

text \<open>
  Whatever error the object-map query ends with, \<open>apfs_omap_lookup_block\<close> hands it to
  its caller as it is (\<open>if (ret) goto fail\<close>); \<open>apfs_delete_omap_rec\<close> turns the
  query's \<open>ENODATA\<close> into \<open>EFSCORRUPTED\<close>.  Neither changes the state on that path.
\<close>

lemma omap_query_error_passed_on:
  "(apfs_btree_query benv sb (omap_query benv sb tbl node_id) [] = Some (Some err, chain) \<longrightarrow>
      apfs_omap_lookup_block benv env sb tbl node_id write = Some (Inl err, sb)) \<and>
   (apfs_btree_query benv sb (omap_query benv sb tbl node_id) [] = Some (Some ENODATA, chain) \<longrightarrow>
      apfs_delete_omap_rec benv sb tbl node_id = Some (Some EFSCORRUPTED, sb))"
  by (simp add: apfs_omap_lookup_block_def apfs_delete_omap_rec_def)

text \<open>
  An object map whose root is a leaf, searched for a key below every record: the query
  ends with \<open>ENODATA\<close>, the leaf at index \<open>-1\<close>.
\<close>

lemma empty_omap_query:
  "apfs_btree_query (tree_env search_before_all 16) sb
     (omap_query (tree_env search_before_all 16) sb leaf_node node_id) [] =
   Some (Some ENODATA,
     [(set_pos (omap_query (tree_env search_before_all 16) sb leaf_node node_id)
         (snd (search_before_all sb (omap_query (tree_env search_before_all 16) sb leaf_node node_id))))
      \<lparr>q_index := -1\<rparr>])"
proof -
  let ?E = "tree_env search_before_all 16"
  let ?Q = "omap_query ?E sb leaf_node node_id"
  let ?P = "snd (search_before_all sb ?Q)"
  have d: "q_depth ?Q < 12"
    by (simp add: omap_query_def Let_def apfs_alloc_query_def)
  have nq: "apfs_node_query ?E sb ?Q = (Some ENODATA, ?P)"
    by (simp add: tree_env_simps search_before_all_def)
  have idx: "p_index ?P = -1" by (simp add: search_before_all_def)
  have leaf: "apfs_node_is_leaf (q_node (set_pos ?Q ?P))"
    by (simp add: set_pos_simps omap_query_def Let_def apfs_alloc_query_def leaf_node_def)
  have "apfs_query_set_before_first ?E sb (set_pos ?Q ?P) [] = (None, [(set_pos ?Q ?P)\<lparr>q_index := -1\<rparr>])"
    unfolding apfs_query_set_before_first_def
    using d leaf by (intro set_before_first_leaf) (simp_all add: set_pos_simps)
  then show ?thesis
    using next_node_before_first[OF d nq idx] by (simp add: apfs_btree_query_def)
qed

text \<open>
  C4, at a concrete input.  The object map is a single leaf with no record for object 7
  at transaction 2.  \<open>apfs_omap_lookup_block\<close> for object 7, for reading and for
  writing, returns \<open>ENODATA\<close>, plain not-found, where the mapping of a virtual object
  is mandatory and its absence is corruption.  On the same map \<open>apfs_delete_omap_rec\<close>
  does report \<open>EFSCORRUPTED\<close>.
\<close>

theorem omap_lookup_missing_mapping_enodata:
  "apfs_omap_lookup_block (tree_env search_before_all 16) example_env
      (example_sb Map.empty Map.empty) leaf_node 7 False =
     Some (Inl ENODATA, example_sb Map.empty Map.empty) \<and>
   apfs_omap_lookup_block (tree_env search_before_all 16) example_env
      (example_sb Map.empty Map.empty) leaf_node 7 True =
     Some (Inl ENODATA, example_sb Map.empty Map.empty) \<and>
   apfs_delete_omap_rec (tree_env search_before_all 16)
      (example_sb Map.empty Map.empty) leaf_node 7 =
     Some (Some EFSCORRUPTED, example_sb Map.empty Map.empty)"
  by (simp add: apfs_omap_lookup_block_def apfs_delete_omap_rec_def empty_omap_query)

text \<open>
  The write path of \<open>apfs_omap_lookup_block\<close>: an error of \<open>apfs_read_object_block\<close>
  is returned as it is; otherwise the record for \<open>(id, nx_xid)\<close> is replaced by one
  that points to the block returned, and that block is the result.
\<close>

lemma omap_lookup_write_error:
  assumes "apfs_btree_query benv sb (omap_query benv sb tbl node_id) [] = Some (None, query)"
    and "apfs_bno_from_query benv (hd query) = Inr block"
    and "apfs_read_object_block env sb block True = (Inl err, sb1)"
  shows "apfs_omap_lookup_block benv env sb tbl node_id True = Some (Inl err, sb1)"
  using assms by (simp add: apfs_omap_lookup_block_def)

lemma omap_lookup_write_replaces:
  assumes "apfs_btree_query benv sb (omap_query benv sb tbl node_id) [] = Some (None, query)"
    and "apfs_bno_from_query benv (hd query) = Inr block"
    and "apfs_read_object_block env sb block True = (Inr new_bno, sb1)"
    and "apfs_btree_replace benv sb1 query \<lparr>ok_oid = node_id, ok_xid = nx_xid sb1\<rparr>
           \<lparr>ov_flags = 0, ov_size = of_nat (s_blocksize sb1), ov_paddr = new_bno\<rparr> = (None, sb2)"
  shows "apfs_omap_lookup_block benv env sb tbl node_id True = Some (Inr new_bno, sb2)"
  using assms by (simp add: apfs_omap_lookup_block_def)

section \<open>Copy-on-write properties\<close>

lemma cpu_to_le64_2: "cpu_to_le64 2 = [2, 0, 0, 0, 0, 0, 0, 0]"
  by code_simp

lemma read_object_block_owned:
  assumes "bdev sb bno = Some obj"
    and "nx_flags sb AND APFS_CHECK_NODES env = 0 \<or> apfs_obj_verify_csum sb obj"
    and "o_xid obj = nx_xid sb"
  shows "apfs_read_object_block env sb bno True = (Inr bno, sb)"
  using assms by (auto simp: apfs_read_object_block_def)

lemma read_object_block_cow:
  assumes "bdev sb bno = Some obj"
    and "nx_flags sb AND APFS_CHECK_NODES env = 0 \<or> apfs_obj_verify_csum sb obj"
    and "o_xid obj \<noteq> nx_xid sb"
    and "apfs_spaceman_allocate_block env sb True = Inr new_bno"
    and "bdev sb new_bno = Some new_data"
    and "length obj = s_blocksize sb" "length new_data = s_blocksize sb"
    and "\<And>s. apfs_free_queue_insert env s bno 1 = None"
    and "\<And>s. apfs_transaction_join env s new_bno = None"
  shows "apfs_read_object_block env sb bno True =
     (Inr new_bno,
      sb\<lparr>allocated := allocated sb @ [new_bno],
         bdev := (bdev sb)(new_bno \<mapsto>
           store_le64 (if o_type obj AND APFS_OBJ_PHYSICAL env \<noteq> 0
                       then store_le64 obj 8 new_bno else obj) 16 (nx_xid sb)),
         free_queue := free_queue sb @ [(bno, 1)],
         trans_bufs := trans_bufs sb @ [new_bno],
         csum_bufs := csum_bufs sb @ [new_bno]\<rparr>)"
  using assms by (auto simp: apfs_read_object_block_def cow_into_def Let_def)

lemma stamped_header:
  assumes "24 \<le> length obj"
  shows "o_xid (store_le64 obj 16 v) = v"
    and "o_oid (store_le64 (store_le64 obj 8 w) 16 v) = w"
    and "o_oid (store_le64 obj 16 v) = o_oid obj"
    and "length (store_le64 obj 16 v) = length obj"
    and "length (store_le64 obj 8 v) = length obj"
proof -
  show "o_xid (store_le64 obj 16 v) = v"
    using assms by (simp add: o_xid_def store_le64_def le64_to_cpu_cpu_to_le64)
  show "length (store_le64 obj 16 v) = length obj" "length (store_le64 obj 8 v) = length obj"
    using assms by (simp_all add: store_le64_def length_cpu_to_le64)
  have t8: "take 8 (drop 8 (store_le64 obj 16 v)) = take 8 (drop 8 obj)"
    using assms by (simp add: store_le64_def drop_take)
  show "o_oid (store_le64 obj 16 v) = o_oid obj"
    using t8 by (simp add: o_oid_def le64_to_cpu_def)
  have "take 8 (drop 8 (store_le64 (store_le64 obj 8 w) 16 v)) = cpu_to_le64 w"
    using assms by (simp add: store_le64_def length_cpu_to_le64 drop_take)
  then show "o_oid (store_le64 (store_le64 obj 8 w) 16 v) = w"
    using le64_to_cpu_cpu_to_le64[of w "[]"]
    by (simp add: o_oid_def le64_to_cpu_def length_cpu_to_le64)
qed

text \<open>
  With node checking off, the copy is owned by the transaction: opening it for writing
  again returns it where it is and changes nothing.
\<close>

lemma cow_reopen_owned:
  assumes "bdev sb bno = Some obj"
    and "nx_flags sb AND APFS_CHECK_NODES env = 0"
    and "o_xid obj \<noteq> nx_xid sb"
    and "apfs_spaceman_allocate_block env sb True = Inr new_bno"
    and "bdev sb new_bno = Some new_data"
    and "length obj = s_blocksize sb" "length new_data = s_blocksize sb"
    and "24 \<le> s_blocksize sb"
    and "\<And>s. apfs_free_queue_insert env s bno 1 = None"
    and "\<And>s. apfs_transaction_join env s new_bno = None"
  shows "fst (apfs_read_object_block env sb bno True) = Inr new_bno \<and>
     apfs_read_object_block env (snd (apfs_read_object_block env sb bno True)) new_bno True =
       (Inr new_bno, snd (apfs_read_object_block env sb bno True))"
proof -
  let ?inner = "if o_type obj AND APFS_OBJ_PHYSICAL env \<noteq> 0 then store_le64 obj 8 new_bno else obj"
  let ?S1 = "sb\<lparr>allocated := allocated sb @ [new_bno],
         bdev := (bdev sb)(new_bno \<mapsto> store_le64 ?inner 16 (nx_xid sb)),
         free_queue := free_queue sb @ [(bno, 1)],
         trans_bufs := trans_bufs sb @ [new_bno],
         csum_bufs := csum_bufs sb @ [new_bno]\<rparr>"
  have first: "apfs_read_object_block env sb bno True = (Inr new_bno, ?S1)"
    using assms(1) _ assms(3-7) assms(9,10)
    by (rule read_object_block_cow) (simp add: assms(2))
  have len: "24 \<le> length ?inner"
    using assms(6,8) stamped_header(5)[of obj new_bno] by simp
  have second: "apfs_read_object_block env ?S1 new_bno True = (Inr new_bno, ?S1)"
  proof (rule read_object_block_owned)
    show "bdev ?S1 new_bno = Some (store_le64 ?inner 16 (nx_xid sb))" by simp
    show "nx_flags ?S1 AND APFS_CHECK_NODES env = 0 \<or>
        apfs_obj_verify_csum ?S1 (store_le64 ?inner 16 (nx_xid sb))"
      using assms(2) by simp
    show "o_xid (store_le64 ?inner 16 (nx_xid sb)) = nx_xid ?S1"
      using stamped_header(1)[OF len] by simp
  qed
  show ?thesis
    unfolding first using second by simp
qed

lemma cow_example_block_facts:
  "length cow_example_block = 4096"
  "apfs_obj_verify_csum (example_sb dev cpms) cow_example_block"
  "o_xid cow_example_block = 1"
  "o_type cow_example_block = 3"
  "cow_example_block ! 16 = 1"
  "store_le64 cow_example_block 16 2 = cow_example_block[16 := 2]"
proof -
  let ?raw = "replicate 16 0 @ [1, 0, 0, 0, 0, 0, 0, 0] @ [3, 0, 0, 0] @ replicate 4068 (0::u8)"
  let ?ck = "apfs_fletcher64 (drop APFS_MAX_CKSUM_SIZE ?raw)
               (s_blocksize (example_sb Map.empty Map.empty) - APFS_MAX_CKSUM_SIZE)"
  have len: "APFS_MAX_CKSUM_SIZE \<le> length ?raw"
    by (simp add: APFS_MAX_CKSUM_SIZE_def)
  have blk: "cow_example_block =
      cpu_to_le64 ?ck @ replicate 8 0 @ [1, 0, 0, 0, 0, 0, 0, 0] @ [3, 0, 0, 0] @ replicate 4068 0"
    by (simp add: cow_example_block_def apfs_obj_set_csum_def Let_def store_le64_def
        replicate_add[symmetric])
  show "length cow_example_block = 4096"
    by (simp add: blk length_cpu_to_le64)
  have bs: "s_blocksize (example_sb dev cpms) = s_blocksize (example_sb Map.empty Map.empty)"
    by (simp add: example_sb_def)
  have "apfs_obj_verify_csum (example_sb Map.empty Map.empty) cow_example_block"
    unfolding cow_example_block_def using len by (rule verify_after_set)
  then show "apfs_obj_verify_csum (example_sb dev cpms) cow_example_block"
    by (simp add: apfs_obj_verify_csum_def bs)
  show "o_xid cow_example_block = 1"
    by (simp add: blk o_xid_def le64_to_cpu_def length_cpu_to_le64)
  show "o_type cow_example_block = 3"
    by (simp add: blk o_type_def le32_to_cpu_def length_cpu_to_le64)
  show "cow_example_block ! 16 = 1"
    by (simp add: blk nth_append length_cpu_to_le64)
  show "store_le64 cow_example_block 16 2 = cow_example_block[16 := 2]"
    by (simp add: blk store_le64_def length_cpu_to_le64 cpu_to_le64_2 list_update_append)
qed

text \<open>
  C2, at a concrete input.  Node checking is on and transaction 2 is open.  Opening the
  object of transaction 1 at block 7 for writing relocates it to block 900, as the claim
  says: the old block goes to the free queue and the copy carries transaction id 2.
  Opening block 900 for writing again does not return it: the copy still holds the
  checksum of the old contents, and the read path rejects it with \<open>EFSBADCRC\<close>.
\<close>

theorem cow_reopen_fails_checksum:
  "fst (apfs_read_object_block example_env cow_example_sb 7 True) = Inr 900 \<and>
   free_queue (snd (apfs_read_object_block example_env cow_example_sb 7 True)) = [(7, 1)] \<and>
   map_option o_xid (bdev (snd (apfs_read_object_block example_env cow_example_sb 7 True)) 900) =
     Some 2 \<and>
   fst (apfs_read_object_block example_env
          (snd (apfs_read_object_block example_env cow_example_sb 7 True)) 900 True) =
     Inl EFSBADCRC"
proof -
  let ?B = cow_example_block
  let ?S1 = "cow_example_sb\<lparr>allocated := allocated cow_example_sb @ [900],
         bdev := (bdev cow_example_sb)(900 \<mapsto>
           store_le64 (if o_type ?B AND APFS_OBJ_PHYSICAL example_env \<noteq> 0
                       then store_le64 ?B 8 900 else ?B) 16 (nx_xid cow_example_sb)),
         free_queue := free_queue cow_example_sb @ [(7, 1)],
         trans_bufs := trans_bufs cow_example_sb @ [900],
         csum_bufs := csum_bufs cow_example_sb @ [900]\<rparr>"
  have first: "apfs_read_object_block example_env cow_example_sb 7 True = (Inr 900, ?S1)"
  proof (rule read_object_block_cow)
    show "bdev cow_example_sb 7 = Some ?B"
      by (simp add: cow_example_sb_def example_sb_def)
    show "nx_flags cow_example_sb AND APFS_CHECK_NODES example_env = 0 \<or>
        apfs_obj_verify_csum cow_example_sb ?B"
      by (simp add: cow_example_sb_def cow_example_block_facts)
    show "o_xid ?B \<noteq> nx_xid cow_example_sb"
      by (simp add: cow_example_block_facts cow_example_sb_def example_sb_def)
    show "apfs_spaceman_allocate_block example_env cow_example_sb True = Inr 900"
      by (simp add: example_env_def)
    show "bdev cow_example_sb 900 = Some (replicate 4096 0)"
      by (simp add: cow_example_sb_def example_sb_def)
    show "length ?B = s_blocksize cow_example_sb"
      by (simp add: cow_example_block_facts cow_example_sb_def example_sb_def)
    show "length (replicate 4096 (0::u8)) = s_blocksize cow_example_sb"
      by (simp add: cow_example_sb_def example_sb_def)
    show "\<And>s. apfs_free_queue_insert example_env s 7 1 = None"
      by (simp add: example_env_def)
    show "\<And>s. apfs_transaction_join example_env s 900 = None"
      by (simp add: example_env_def)
  qed
  have new: "bdev ?S1 900 = Some (?B[16 := 2])"
    by (simp add: cow_example_block_facts example_env_def cow_example_sb_def example_sb_def)
  have valid: "apfs_obj_verify_csum ?S1 ?B"
    using cow_example_block_facts(2)[of "bdev cow_example_sb" Map.empty]
    by (simp add: apfs_obj_verify_csum_def cow_example_sb_def example_sb_def)
  have bad: "\<not> apfs_obj_verify_csum ?S1 (?B[16 := 2])"
  proof (rule csum_detects_byte_change[OF _ _ _ valid])
    show "length ?B = s_blocksize ?S1"
      by (simp add: cow_example_block_facts cow_example_sb_def example_sb_def)
    show "s_blocksize ?S1 \<le> 65536" "4 dvd s_blocksize ?S1"
      by (simp_all add: cow_example_sb_def example_sb_def)
    show "APFS_MAX_CKSUM_SIZE \<le> 16" "16 < length ?B"
      by (simp_all add: APFS_MAX_CKSUM_SIZE_def cow_example_block_facts)
    show "(2::u8) \<noteq> ?B ! 16"
      by (simp add: cow_example_block_facts)
  qed
  have flags: "nx_flags ?S1 AND APFS_CHECK_NODES example_env \<noteq> 0"
    by (simp add: cow_example_sb_def example_sb_def example_env_def)
  have second: "apfs_read_object_block example_env ?S1 900 True = (Inl EFSBADCRC, ?S1)"
    using new bad flags by (simp add: apfs_read_object_block_def)
  have fq: "free_queue ?S1 = [(7, 1)]"
    by (simp add: cow_example_sb_def example_sb_def)
  have xid: "map_option o_xid (bdev ?S1 900) = Some 2"
    using stamped_header(1)[of ?B 2]
    by (simp add: cow_example_block_facts example_env_def cow_example_sb_def example_sb_def)
  show ?thesis
    unfolding first using second fq xid by simp
qed

end
